theory Spec2Isabelle
  imports Main
begin

section \<open>Data model\<close>

text \<open>
  \<^verbatim>\<open>TreeNodeData\<close> (data-access/models/incident.model.ts): a node of a diagram, kept in a
  flat list with parent links. \<open>parent = None\<close> is the absent (\<^verbatim>\<open>undefined\<close>) parent.
  The optional metadata fields \<^verbatim>\<open>level\<close>, \<^verbatim>\<open>category\<close>, \<^verbatim>\<open>color\<close>, \<^verbatim>\<open>description\<close> and
  \<^verbatim>\<open>children\<close> are neither read nor written by any function modelled below and are left out.
  Keys are JavaScript numbers; all keys handled here are integers.
\<close>

record TreeNodeData =
  key :: int
  name :: string
  parent :: "int option"

text \<open>\<^verbatim>\<open>TreeNodeData & { displayLevel: number }\<close> of the hierarchy diagram component.\<close>

record DisplayNode = TreeNodeData +
  displayLevel :: int

text \<open>\<^verbatim>\<open>Diagram\<close>: the persisted entity. \<^verbatim>\<open>createdAt\<close> is a Date, kept as its epoch value.\<close>

record Diagram =
  id' :: int
  incidentId :: int
  title :: string
  diagramJson :: string
  diagramPdf :: "nat list option"
  createdAt :: int

text \<open>
  \<^verbatim>\<open>IncidentsData\<close>, the in-memory store of the repository. The incident records and the
  statistics are not touched by the operations modelled here and stay abstract.
\<close>

record ('i, 's) IncidentsData =
  incidents :: "'i list"
  diagrams :: "Diagram list"
  stats :: 's

text \<open>A thrown \<^verbatim>\<open>Error(message)\<close>.\<close>

datatype error = Error string

text \<open>
  JavaScript truthiness of an optional number (\<^verbatim>\<open>!node.parent\<close>, \<^verbatim>\<open>while (currentNode.parent)\<close>):
  \<^verbatim>\<open>undefined\<close> and \<^verbatim>\<open>0\<close> are falsy.
\<close>

definition truthyNum :: "int option \<Rightarrow> bool" where
  "truthyNum p = (case p of None \<Rightarrow> False | Some k \<Rightarrow> k \<noteq> 0)"

text \<open>Truthiness of an optional string: \<^verbatim>\<open>null\<close>, \<^verbatim>\<open>undefined\<close> and the empty string are falsy.\<close>

definition truthyStr :: "string option \<Rightarrow> bool" where
  "truthyStr s = (case s of None \<Rightarrow> False | Some t \<Rightarrow> t \<noteq> [])"

text \<open>
  \<^verbatim>\<open>String.prototype.trim\<close>. A character of the model is a code unit from U+0000 to U+00FF.
  Of these, JavaScript's white space and line terminators are tab, line feed, vertical tab,
  form feed, carriage return, space and the no-break space U+00A0; the others (U+1680,
  U+2000 to U+200A, U+2028, U+2029, U+202F, U+205F, U+3000, U+FEFF) lie outside the model's
  characters.
\<close>

definition isWhitespace :: "char \<Rightarrow> bool" where
  "isWhitespace c =
     (c \<in> set [CHR 0x09, CHR 0x0A, CHR 0x0B, CHR 0x0C, CHR 0x0D, CHR '' '', CHR 0xA0])"

definition trim :: "string \<Rightarrow> string" where
  "trim s = rev (dropWhile isWhitespace (rev (dropWhile isWhitespace s)))"


section \<open>Diagram generator (incident.repository.ts)\<close>

text \<open>
  \<^verbatim>\<open>truncateIncidentName\<close>: \<^verbatim>\<open>incident.substring(0, 27) + '...'\<close> when the text is longer
  than 30.
\<close>

definition truncateIncidentName :: "string \<Rightarrow> string" where
  "truncateIncidentName incident =
     (if length incident \<le> 30 then incident else take 27 incident @ ''...'')"

definition level1Names :: "string list" where
  "level1Names = [''Human Factor'', ''Equipment Issue'', ''Environmental Factor'',
                  ''Process Issue'', ''Management Factor'']"

definition level2Names :: "string list" where
  "level2Names = [''Inadequate Training'', ''Fatigue/Stress'', ''Maintenance Issue'',
                  ''Design Flaw'', ''Unsafe Conditions'', ''Weather Impact'']"

text \<open>The local variables of \<^verbatim>\<open>generateGenericData\<close> that its two loops update.\<close>

record GenState =
  data :: "TreeNodeData list"
  keyCounter :: int
  level1Keys :: "int list"

text \<open>
  \<^verbatim>\<open>for (let i = 0; i < Math.min(5, level + 2); i++) { ... }\<close>. The bound never exceeds
  the five names, so \<^verbatim>\<open>level1Names[i]\<close> is always an in-range read.
\<close>

function level1Loop :: "int \<Rightarrow> nat \<Rightarrow> GenState \<Rightarrow> GenState" where
  "level1Loop level i s =
     (if int i < min 5 (level + 2)
      then (let node = \<lparr>key = keyCounter s, name = level1Names ! i, parent = Some 1\<rparr>
            in level1Loop level (Suc i)
                 (s\<lparr>data := data s @ [node],
                    keyCounter := keyCounter s + 1,
                    level1Keys := level1Keys s @ [key node]\<rparr>))
      else s)"
  by pat_completeness auto
termination
  by (relation "measure (\<lambda>(level, i, s). nat (min 5 (level + 2)) - i)") auto

text \<open>
  \<^verbatim>\<open>for (let i = 0; i < Math.min(level1Keys.length * 2, 6); i++) { ... }\<close> with
  \<^verbatim>\<open>parentKey = level1Keys[i % level1Keys.length]\<close>. The body only runs when
  \<^verbatim>\<open>level1Keys\<close> is non-empty, and the bound never exceeds the six names.
\<close>

function level2Loop :: "nat \<Rightarrow> GenState \<Rightarrow> GenState" where
  "level2Loop i s =
     (if i < min (length (level1Keys s) * 2) 6
      then (let parentKey = level1Keys s ! (i mod length (level1Keys s));
                node = \<lparr>key = keyCounter s, name = level2Names ! i, parent = Some parentKey\<rparr>
            in level2Loop (Suc i)
                 (s\<lparr>data := data s @ [node], keyCounter := keyCounter s + 1\<rparr>))
      else s)"
  by pat_completeness auto
termination
  by (relation "measure (\<lambda>(i, s). min (length (level1Keys s) * 2) 6 - i)") auto

text \<open>
  \<^verbatim>\<open>generateGenericData\<close>. It is a method of the repository; \<open>repo\<close> is the repository
  object (\<^verbatim>\<open>this\<close>), of which the body reads no field.
\<close>

definition generateGenericData :: "'r \<Rightarrow> string \<Rightarrow> int \<Rightarrow> TreeNodeData list" where
  "generateGenericData repo incident level =
     (let s0 = \<lparr>data = [\<lparr>key = 1, name = truncateIncidentName incident, parent = None\<rparr>],
                keyCounter = 2, level1Keys = []\<rparr>;
          s1 = level1Loop level 0 s0;
          s2 = (if level \<ge> 2 then level2Loop 0 s1 else s1)
      in data s2)"

text \<open>
  \<^verbatim>\<open>fakeApiCall\<close> and \<^verbatim>\<open>generateDiagram\<close>: the value the returned observable emits (after
  a simulated delay, which is not modelled).
\<close>

definition fakeApiCall :: "'r \<Rightarrow> string \<Rightarrow> int \<Rightarrow> TreeNodeData list" where
  "fakeApiCall repo incident level = generateGenericData repo incident level"

definition generateDiagram :: "'r \<Rightarrow> string \<Rightarrow> int \<Rightarrow> TreeNodeData list" where
  "generateDiagram repo incident level = fakeApiCall repo incident level"


section \<open>Stored diagrams (incident.repository.ts)\<close>

text \<open>\<^verbatim>\<open>Array.prototype.findIndex\<close>; \<open>None\<close> is the result \<^verbatim>\<open>-1\<close>.\<close>

fun findIndex :: "('a \<Rightarrow> bool) \<Rightarrow> 'a list \<Rightarrow> nat option" where
  "findIndex P [] = None"
| "findIndex P (x # xs) = (if P x then Some 0 else map_option Suc (findIndex P xs))"

text \<open>
  \<^verbatim>\<open>updateDiagram\<close>: the result is what the observable emits or the error it fails with,
  paired with the store afterwards. \<open>this\<close> is \<^verbatim>\<open>this.incidentsData\<close> (\<open>None\<close> when not
  loaded); \<open>stringify\<close> stands for \<^verbatim>\<open>JSON.stringify\<close>. An absent argument is \<open>None\<close>.
\<close>

definition updateDiagram ::
  "(TreeNodeData list \<Rightarrow> string) \<Rightarrow> int \<Rightarrow> string option \<Rightarrow> TreeNodeData list option \<Rightarrow>
   ('i, 's) IncidentsData option \<Rightarrow> (error + Diagram) \<times> ('i, 's) IncidentsData option" where
  "updateDiagram stringify diagramId titleArg diagramData this =
     (case this of
        None \<Rightarrow> (Inl (Error ''Incidents data not loaded''), this)
      | Some d \<Rightarrow>
          (case findIndex (\<lambda>x. id' x = diagramId) (diagrams d) of
             None \<Rightarrow> (Inl (Error ''Diagram not found''), this)
           | Some index \<Rightarrow>
               (let old = diagrams d ! index;
                    u1 = (case titleArg of
                            None \<Rightarrow> old
                          | Some t \<Rightarrow> if t \<noteq> [] then old\<lparr>title := t\<rparr> else old);
                    u2 = (case diagramData of
                            None \<Rightarrow> u1
                          | Some nodes \<Rightarrow> u1\<lparr>diagramJson := stringify nodes\<rparr>)
                in (Inr u2, Some (d\<lparr>diagrams := (diagrams d)[index := u2]\<rparr>)))))"


section \<open>Analysis-level labels\<close>

definition isDigit :: "char \<Rightarrow> bool" where
  "isDigit c = (c \<in> set ''0123456789'')"

text \<open>
  \<^verbatim>\<open>parseInt(digits, 10)\<close> on a non-empty run of decimal digits. JavaScript numbers are
  exact up to \<open>2 ^ 53\<close>; a longer run of digits is rounded there and is not modelled.
\<close>

definition parseInt10 :: "string \<Rightarrow> int" where
  "parseInt10 ds = fold (\<lambda>c n. 10 * n + (int (of_char c) - 48)) ds 0"

text \<open>
  \<^verbatim>\<open>s.match(/Level (\d+)/)\<close>: the first position at which the text \<^verbatim>\<open>Level\<close>, one space and
  at least one digit occur; the result is capture group 1, the longest run of digits there.
\<close>

fun matchLevel :: "string \<Rightarrow> string option" where
  "matchLevel [] = None"
| "matchLevel (c # cs) =
     (let digits = takeWhile isDigit (drop 6 (c # cs))
      in if take 6 (c # cs) = ''Level '' \<and> digits \<noteq> [] then Some digits else matchLevel cs)"

text \<open>\<^verbatim>\<open>extractLevelFromAnalysisLevel\<close> of the history page.\<close>

definition extractLevelFromAnalysisLevel :: "string \<Rightarrow> int" where
  "extractLevelFromAnalysisLevel analysisLevel =
     (case matchLevel analysisLevel of Some digits \<Rightarrow> parseInt10 digits | None \<Rightarrow> 1)"

text \<open>\<^verbatim>\<open>extractLevelNumber\<close> of the incident edit modal; the argument is optional.\<close>

definition extractLevelNumber :: "string option \<Rightarrow> int" where
  "extractLevelNumber analysisLevel =
     (case analysisLevel of
        None \<Rightarrow> 3
      | Some s \<Rightarrow>
          if s = [] then 3
          else (case matchLevel s of Some digits \<Rightarrow> parseInt10 digits | None \<Rightarrow> 3))"

text \<open>
  The same pattern matched without regard to case (\<^verbatim>\<open>/Level (\d+)/i\<close>), as the
  specification describes it: the six characters are compared after folding the letters A
  to Z to lower case.
\<close>

definition lowerChar :: "char \<Rightarrow> char" where
  "lowerChar c =
     (case map_of (zip ''ABCDEFGHIJKLMNOPQRSTUVWXYZ'' ''abcdefghijklmnopqrstuvwxyz'') c of
        Some l \<Rightarrow> l
      | None \<Rightarrow> c)"

fun matchLevelIgnoreCase :: "string \<Rightarrow> string option" where
  "matchLevelIgnoreCase [] = None"
| "matchLevelIgnoreCase (c # cs) =
     (let digits = takeWhile isDigit (drop 6 (c # cs))
      in if map lowerChar (take 6 (c # cs)) = ''level '' \<and> digits \<noteq> []
         then Some digits else matchLevelIgnoreCase cs)"

text \<open>
  \<^verbatim>\<open>extractLevelNumber\<close> of the user dashboard, the third copy of the extraction, whose
  pattern is \<^verbatim>\<open>/Level (\d+)/i\<close> and whose fallback is \<open>0\<close>.
\<close>

definition extractLevelNumber_dashboard :: "string \<Rightarrow> int" where
  "extractLevelNumber_dashboard analysisLevel =
     (if analysisLevel = [] then 0
      else (case matchLevelIgnoreCase analysisLevel of
              Some digits \<Rightarrow> parseInt10 digits
            | None \<Rightarrow> 0))"


section \<open>Diagram editor (incident edit modal)\<close>

text \<open>
  The signals of the component, the two form controls the diagram operations read, and
  the value kept by the computed signal \<^verbatim>\<open>canRegenerateDiagram\<close>. A form value is \<open>None\<close>
  when the control holds \<^verbatim>\<open>null\<close>.
\<close>

record EditorState =
  diagramData :: "TreeNodeData list"
  editingNodeId :: "int option"
  originalLevel :: int
  formDescription :: "string option"
  formAnalysisLevel :: "string option"
  diagramError :: string
  isGeneratingDiagram :: bool
  canRegenerateMemo :: "bool option"

text \<open>
  The function inside \<^verbatim>\<open>canRegenerateDiagram = computed(...)\<close>:
  \<^verbatim>\<open>description && description.length > 10 && level\<close>, as a truth value.
\<close>

definition canRegenerateDiagram_body :: "EditorState \<Rightarrow> bool" where
  "canRegenerateDiagram_body st =
     (let description = map_option trim (formDescription st);
          level = formAnalysisLevel st
      in truthyStr description \<and>
         (case description of None \<Rightarrow> False | Some d \<Rightarrow> length d > 10) \<and>
         truthyStr level)"

text \<open>
  A read \<^verbatim>\<open>this.canRegenerateDiagram()\<close>. The function reads the form, which is no signal,
  so the computed signal has no dependency: its first read runs the function and keeps the
  value, every later read returns the kept value. \<open>canRegenerateMemo\<close> is that value,
  \<open>None\<close> before the first read.
\<close>

definition canRegenerateDiagram :: "EditorState \<Rightarrow> bool \<times> EditorState" where
  "canRegenerateDiagram st =
     (case canRegenerateMemo st of
        Some v \<Rightarrow> (v, st)
      | None \<Rightarrow>
          (let v = canRegenerateDiagram_body st in (v, st\<lparr>canRegenerateMemo := Some v\<rparr>)))"

text \<open>
  \<^verbatim>\<open>regenerateDiagram\<close>. The awaited generator call is taken as one step; the \<^verbatim>\<open>try\<close> block
  yields either the thrown error or the generated data, and \<^verbatim>\<open>finally\<close> resets the flag.
\<close>

definition regenerateDiagram :: "'r \<Rightarrow> EditorState \<Rightarrow> EditorState" where
  "regenerateDiagram repo st =
     (let (can, st0) = canRegenerateDiagram st
      in if \<not> can
      then st0\<lparr>diagramError := ''Please provide incident description and select a level first.''\<rparr>
      else
        (let st1 = st0\<lparr>isGeneratingDiagram := True, diagramError := [], editingNodeId := None\<rparr>;
             description = map_option trim (formDescription st1);
             level = extractLevelNumber (formAnalysisLevel st1);
             attempt =
               (case description of
                  None \<Rightarrow> Inl (Error ''Incident description must be at least 10 characters long.'')
                | Some d \<Rightarrow>
                    if d = [] \<or> length d < 10
                    then Inl (Error ''Incident description must be at least 10 characters long.'')
                    else Inr (generateDiagram repo d level));
             st2 =
               (case attempt of
                  Inl (Error message) \<Rightarrow> st1\<lparr>diagramError := message\<rparr>
                | Inr newDiagramData \<Rightarrow>
                    if newDiagramData \<noteq> [] then st1\<lparr>diagramData := newDiagramData\<rparr>
                    else st1\<lparr>diagramError := ''No diagram data was generated. Please try again.''\<rparr>)
         in st2\<lparr>isGeneratingDiagram := False\<rparr>))"

definition stopEditingNode :: "EditorState \<Rightarrow> EditorState" where
  "stopEditingNode st = st\<lparr>editingNodeId := None\<rparr>"

text \<open>\<^verbatim>\<open>updateNodeText\<close>.\<close>

definition updateNodeText :: "int \<Rightarrow> string \<Rightarrow> EditorState \<Rightarrow> EditorState" where
  "updateNodeText nodeKey newText st =
     (if newText = [] \<or> trim newText = []
      then st\<lparr>diagramError := ''Node text cannot be empty.''\<rparr>
      else
        (let st1 = st\<lparr>diagramData :=
                        map (\<lambda>node. if key node = nodeKey then node\<lparr>name := trim newText\<rparr> else node)
                            (diagramData st)\<rparr>
         in (stopEditingNode st1)\<lparr>diagramError := []\<rparr>))"

text \<open>
  \<^verbatim>\<open>addNewNode\<close>: \<^verbatim>\<open>Math.max(...keys, 0)\<close> is the maximum of the keys and \<open>0\<close>. The source
  adds 1 to a JavaScript number, which is exact while the maximum is below \<open>2 ^ 53\<close>; the
  model adds on integers and stands for the source on such lists only.
\<close>

definition addNewNode :: "EditorState \<Rightarrow> EditorState" where
  "addNewNode st =
     (let maxKey = fold max (map key (diagramData st)) 0;
          newNode = \<lparr>key = maxKey + 1, name = ''New Analysis Point'', parent = None\<rparr>
      in st\<lparr>diagramData := diagramData st @ [newNode], editingNodeId := Some (key newNode)\<rparr>)"

text \<open>
  \<^verbatim>\<open>getNodeAndChildren\<close>: the recursion follows parent links downwards and does not return on
  a list with a cycle below \<open>nodeKey\<close>; \<open>fuel\<close> bounds the depth of the calls and \<open>None\<close>
  is a run that exceeds it.
\<close>

fun getNodeAndChildren :: "nat \<Rightarrow> int \<Rightarrow> TreeNodeData list \<Rightarrow> int list option" where
  "getNodeAndChildren 0 nodeKey nodes = None"
| "getNodeAndChildren (Suc fuel) nodeKey nodes =
     fold (\<lambda>child acc.
             case acc of
               None \<Rightarrow> None
             | Some result \<Rightarrow>
                 (case getNodeAndChildren fuel (key child) nodes of
                    None \<Rightarrow> None
                  | Some sub \<Rightarrow> Some (result @ sub)))
          (filter (\<lambda>node. parent node = Some nodeKey) nodes)
          (Some [nodeKey])"

text \<open>\<^verbatim>\<open>removeNode\<close>: one update of the node list, then the edit-mode check.\<close>

definition removeNode :: "nat \<Rightarrow> int \<Rightarrow> EditorState \<Rightarrow> EditorState option" where
  "removeNode fuel nodeKey st =
     (case getNodeAndChildren fuel nodeKey (diagramData st) of
        None \<Rightarrow> None
      | Some nodesToRemove \<Rightarrow>
          (let st1 = st\<lparr>diagramData :=
                          filter (\<lambda>node. key node \<notin> set nodesToRemove) (diagramData st)\<rparr>
           in Some (if editingNodeId st1 = Some nodeKey then st1\<lparr>editingNodeId := None\<rparr>
                    else st1)))"


section \<open>Depth assigner (hierarchy diagram component)\<close>

text \<open>
  \<^verbatim>\<open>nodeMap\<close> is a \<^verbatim>\<open>Map\<close> from \<^verbatim>\<open>node.key\<close> to a copy of the node. It is kept as the list of
  its values in insertion order; the key of an entry is the \<open>key\<close> field of its value, as
  every \<^verbatim>\<open>nodeMap.set(node.key, ...)\<close> of the source has it. Setting an existing key
  replaces the value in place, a new key is appended.
\<close>

fun nodeMap_set :: "DisplayNode \<Rightarrow> DisplayNode list \<Rightarrow> DisplayNode list" where
  "nodeMap_set v [] = [v]"
| "nodeMap_set v (x # m) = (if key x = key v then v # m else x # nodeMap_set v m)"

definition nodeMap_get :: "int \<Rightarrow> DisplayNode list \<Rightarrow> DisplayNode option" where
  "nodeMap_get k m = find (\<lambda>x. key x = k) m"

text \<open>\<^verbatim>\<open>{ ...node, displayLevel: 0 }\<close>\<close>

definition withDisplayLevel :: "TreeNodeData \<Rightarrow> int \<Rightarrow> DisplayNode" where
  "withDisplayLevel node l =
     \<lparr>key = key node, name = name node, parent = parent node, displayLevel = l\<rparr>"

text \<open>\<^verbatim>\<open>node.displayLevel = displayLevel\<close> on the object stored under \<open>nodeKey\<close>.\<close>

definition setDisplayLevel :: "int \<Rightarrow> int \<Rightarrow> DisplayNode list \<Rightarrow> DisplayNode list" where
  "setDisplayLevel nodeKey l m =
     map (\<lambda>x. if key x = nodeKey then x\<lparr>displayLevel := l\<rparr> else x) m"

text \<open>
  \<^verbatim>\<open>assignDisplayLevelRecursive\<close>. The recursion does not return when a chain of parent
  links below \<open>nodeKey\<close> leads back to it; \<open>fuel\<close> bounds the depth of the calls and
  \<open>None\<close> is a run that exceeds it. \<^verbatim>\<open>nodeMap.forEach\<close> visits the entries in insertion order
  and reads \<^verbatim>\<open>child.parent\<close> and \<^verbatim>\<open>child.key\<close>, which no call changes, so the entries of the
  map at the time of the call are the ones visited.
\<close>

fun assignDisplayLevelRecursive ::
  "nat \<Rightarrow> int \<Rightarrow> int \<Rightarrow> DisplayNode list \<Rightarrow> DisplayNode list option" where
  "assignDisplayLevelRecursive 0 nodeKey l nodeMap = None"
| "assignDisplayLevelRecursive (Suc fuel) nodeKey l nodeMap =
     (case nodeMap_get nodeKey nodeMap of
        None \<Rightarrow> Some nodeMap
      | Some node \<Rightarrow>
          fold (\<lambda>child acc.
                  case acc of
                    None \<Rightarrow> None
                  | Some m \<Rightarrow>
                      if parent child = Some nodeKey
                      then assignDisplayLevelRecursive fuel (key child) (l + 1) m
                      else Some m)
               nodeMap
               (Some (setDisplayLevel nodeKey l nodeMap)))"

text \<open>
  \<^verbatim>\<open>assignDisplayLevels\<close>: the root is the first node whose parent is falsy; the result is
  \<^verbatim>\<open>Array.from(nodeMap.values())\<close>.
\<close>

definition assignDisplayLevels :: "nat \<Rightarrow> TreeNodeData list \<Rightarrow> DisplayNode list option" where
  "assignDisplayLevels fuel nodes =
     (let nodeMap = fold (\<lambda>node m. nodeMap_set (withDisplayLevel node 0) m) nodes []
      in case find (\<lambda>node. \<not> truthyNum (parent node)) nodes of
           None \<Rightarrow> Some nodeMap
         | Some root \<Rightarrow> assignDisplayLevelRecursive fuel (key root) 0 nodeMap)"


section \<open>Tree invariants of the specification\<close>

text \<open>The parent links of a node list: each key with the parent it names.\<close>

definition links :: "'a TreeNodeData_scheme list \<Rightarrow> (int \<times> int option) list" where
  "links nodes = map (\<lambda>n. (key n, parent n)) nodes"

definition parentOf :: "(int \<times> int option) list \<Rightarrow> int \<Rightarrow> int option" where
  "parentOf lk k = (case map_of lk k of None \<Rightarrow> None | Some p \<Rightarrow> p)"

text \<open>
  Following parent links upwards from key \<open>k\<close>: the number of steps after which the chain
  ends, at a node without parent or at a key that is not in the list; \<open>None\<close> when the chain
  has not ended after \<open>fuel\<close> nodes.
\<close>

fun climb :: "nat \<Rightarrow> (int \<times> int option) list \<Rightarrow> int \<Rightarrow> nat option" where
  "climb 0 lk k = None"
| "climb (Suc fuel) lk k =
     (case parentOf lk k of None \<Rightarrow> Some 0 | Some p \<Rightarrow> map_option Suc (climb fuel lk p))"

text \<open>
  No cycles: from every node the chain of parent links ends; a chain without a repeated
  node has at most as many nodes as the list.
\<close>

definition noCycles :: "(int \<times> int option) list \<Rightarrow> bool" where
  "noCycles lk = (\<forall>k \<in> set (map fst lk). climb (length lk) lk k \<noteq> None)"

definition uniqueKeys :: "'a TreeNodeData_scheme list \<Rightarrow> bool" where
  "uniqueKeys nodes = distinct (map key nodes)"

definition uniqueRoot :: "'a TreeNodeData_scheme list \<Rightarrow> bool" where
  "uniqueRoot nodes = (length (filter (\<lambda>n. parent n = None) nodes) = 1)"

definition treeInvariants :: "'a TreeNodeData_scheme list \<Rightarrow> bool" where
  "treeInvariants nodes = (uniqueKeys nodes \<and> uniqueRoot nodes \<and> noCycles (links nodes))"

text \<open>
  The subtree of key \<open>k\<close>: \<open>k\<close> and every key reachable from it by going from a node to
  the nodes that name it as their parent.
\<close>

inductive_set subtree :: "(int \<times> int option) list \<Rightarrow> int \<Rightarrow> int set"
  for lk :: "(int \<times> int option) list" and k :: int where
  subtree_self: "k \<in> subtree lk k"
| subtree_child: "p \<in> subtree lk k \<Longrightarrow> (c, Some p) \<in> set lk \<Longrightarrow> c \<in> subtree lk k"

text \<open>The depth of a key: the length of its chain of parent links.\<close>

definition depthOf :: "(int \<times> int option) list \<Rightarrow> int \<Rightarrow> nat" where
  "depthOf lk k = (case climb (length lk) lk k of None \<Rightarrow> 0 | Some r \<Rightarrow> r)"

text \<open>Setting the display level of every entry whose key is in \<open>S\<close> to \<open>t key\<close>.\<close>

definition relabel :: "int set \<Rightarrow> (int \<Rightarrow> int) \<Rightarrow> DisplayNode list \<Rightarrow> DisplayNode list" where
  "relabel S t m = map (\<lambda>x. if key x \<in> S then x\<lparr>displayLevel := t (key x)\<rparr> else x) m"


section \<open>Auxiliary definitions for the statements\<close>

text \<open>The number of first-layer nodes the generator creates: \<open>min(5, level + 2)\<close>.\<close>

definition firstLayerCount :: "int \<Rightarrow> nat" where
  "firstLayerCount level = nat (min 5 (level + 2))"

text \<open>A store with one diagram, for concrete runs.\<close>

definition exampleStore :: "(unit, unit) IncidentsData" where
  "exampleStore = \<lparr>incidents = [], diagrams =
      [\<lparr>id' = 7, incidentId = 3, title = ''Old title'', diagramJson = ''[]'',
        diagramPdf = None, createdAt = 1700000000\<rparr>], stats = ()\<rparr>"


text \<open>
  The decimal numeral of a natural number, as it appears in a label
  \<^verbatim>\<open>Level N - <description>\<close>.
\<close>

fun digitsOf :: "nat \<Rightarrow> string" where
  "digitsOf n = (if n < 10 then [''0123456789'' ! n]
                 else digitsOf (n div 10) @ [''0123456789'' ! (n mod 10)])"

text \<open>The union of the subtrees of the nodes of \<open>cs\<close> whose parent is \<open>k\<close>.\<close>

definition childTrees ::
  "(int \<times> int option) list \<Rightarrow> int \<Rightarrow> 'a TreeNodeData_scheme list \<Rightarrow> int set" where
  "childTrees lk k cs =
     \<Union> (set (map (\<lambda>c. subtree lk (key c)) (filter (\<lambda>c. parent c = Some k) cs)))"

text \<open>
  An editor holding a small diagram, node 2 in edit mode, a description of exactly ten
  characters, a level selected, and \<^verbatim>\<open>canRegenerateDiagram\<close> not read so far.
\<close>

definition exampleEditor :: EditorState where
  "exampleEditor =
     \<lparr>diagramData = [\<lparr>key = 1, name = ''Worker slipped'', parent = None\<rparr>,
                      \<lparr>key = 2, name = ''Human Factor'', parent = Some 1\<rparr>,
                      \<lparr>key = 3, name = ''Equipment Issue'', parent = Some 1\<rparr>,
                      \<lparr>key = 4, name = ''Inadequate Training'', parent = Some 2\<rparr>],
      editingNodeId = Some 2, originalLevel = 3,
      formDescription = Some ''0123456789'',
      formAnalysisLevel = Some ''Level 3 - Moderate Analysis'',
      diagramError = [], isGeneratingDiagram = False, canRegenerateMemo = None\<rparr>"

text \<open>An editor whose only node has a negative key.\<close>

definition detachedEditor :: EditorState where
  "detachedEditor =
     \<lparr>diagramData = [\<lparr>key = - 5, name = ''Detached'', parent = None\<rparr>],
      editingNodeId = None, originalLevel = 3, formDescription = None,
      formAnalysisLevel = None, diagramError = [], isGeneratingDiagram = False,
      canRegenerateMemo = None\<rparr>"

text \<open>A tree with a detached fragment: node 9 names a parent that is not in the list.\<close>

definition exampleNodes :: "TreeNodeData list" where
  "exampleNodes = [\<lparr>key = 1, name = ''Worker slipped'', parent = None\<rparr>,
                   \<lparr>key = 2, name = ''Human Factor'', parent = Some 1\<rparr>,
                   \<lparr>key = 3, name = ''Equipment Issue'', parent = Some 1\<rparr>,
                   \<lparr>key = 4, name = ''Inadequate Training'', parent = Some 2\<rparr>,
                   \<lparr>key = 9, name = ''Detached'', parent = Some 7\<rparr>]"

text \<open>A tree whose root has key \<open>0\<close> and is not the first element of the list.\<close>

definition zeroKeyNodes :: "TreeNodeData list" where
  "zeroKeyNodes = [\<lparr>key = 1, name = ''Human Factor'', parent = Some 0\<rparr>,
                   \<lparr>key = 0, name = ''Worker slipped'', parent = None\<rparr>,
                   \<lparr>key = 2, name = ''Inadequate Training'', parent = Some 1\<rparr>]"


section \<open>The generator\<close>

declare level1Loop.simps [simp del] level2Loop.simps [simp del]

lemma level1Loop_closed:
  "level1Loop level i s =
     s\<lparr>data := data s @ map (\<lambda>j. \<lparr>key = keyCounter s + int (j - i), name = level1Names ! j, parent = Some 1\<rparr>)
                           [i..<firstLayerCount level],
       keyCounter := keyCounter s + int (firstLayerCount level - i),
       level1Keys := level1Keys s @ map (\<lambda>j. keyCounter s + int (j - i)) [i..<firstLayerCount level]\<rparr>"
proof (induction "firstLayerCount level - i" arbitrary: i s)
  case 0
  then have "\<not> int i < min 5 (level + 2)" unfolding firstLayerCount_def by linarith
  then have "level1Loop level i s = s" by (subst level1Loop.simps) auto
  moreover have "[i..<firstLayerCount level] = []" using 0 by simp
  ultimately show ?case using 0 by simp
next
  case (Suc d)
  then have lt: "i < firstLayerCount level" by simp
  then have c: "int i < min 5 (level + 2)" unfolding firstLayerCount_def by linarith
  let ?s = "s\<lparr>data := data s @ [\<lparr>key = keyCounter s, name = level1Names ! i, parent = Some 1\<rparr>],
               keyCounter := keyCounter s + 1,
               level1Keys := level1Keys s @ [keyCounter s]\<rparr>"
  have step: "level1Loop level i s = level1Loop level (Suc i) ?s"
    using c by (subst level1Loop.simps) (auto simp: Let_def)
  have d: "d = firstLayerCount level - Suc i" using Suc.hyps(2) by simp
  have m: "map (\<lambda>j. f (int (j - i))) [Suc i..<n] = map (\<lambda>j. f (1 + int (j - Suc i))) [Suc i..<n]" for f :: "int \<Rightarrow> 'b" and n
    by (rule map_cong) (auto simp: Suc_diff_le)
  show ?case
    unfolding step Suc.hyps(1)[OF d]
    using lt by (simp add: upt_conv_Cons Suc_diff_le add.assoc)
qed

lemma level2Loop_closed:
  "level2Loop i s =
     s\<lparr>data := data s @ map (\<lambda>j. \<lparr>key = keyCounter s + int (j - i), name = level2Names ! j,
                                  parent = Some (level1Keys s ! (j mod length (level1Keys s)))\<rparr>)
                           [i..<min (length (level1Keys s) * 2) 6],
       keyCounter := keyCounter s + int (min (length (level1Keys s) * 2) 6 - i)\<rparr>"
proof (induction "min (length (level1Keys s) * 2) 6 - i" arbitrary: i s)
  case 0
  then have "\<not> i < min (length (level1Keys s) * 2) 6" by linarith
  then have "level2Loop i s = s" by (subst level2Loop.simps) auto
  moreover have "[i..<min (length (level1Keys s) * 2) 6] = []" using 0 by simp
  ultimately show ?case using 0 by simp
next
  case (Suc d)
  then have lt: "i < min (length (level1Keys s) * 2) 6" by linarith
  let ?s = "s\<lparr>data := data s @ [\<lparr>key = keyCounter s, name = level2Names ! i,
                                   parent = Some (level1Keys s ! (i mod length (level1Keys s)))\<rparr>],
               keyCounter := keyCounter s + 1\<rparr>"
  have step: "level2Loop i s = level2Loop (Suc i) ?s"
    using lt by (subst level2Loop.simps) (auto simp: Let_def)
  have d: "d = min (length (level1Keys ?s) * 2) 6 - Suc i" using Suc.hyps(2) by simp
  show ?case
    unfolding step Suc.hyps(1)[OF d]
    using lt by (simp add: upt_conv_Cons Suc_diff_le add.assoc)
qed

lemma generateGenericData_closed:
  "generateGenericData repo incident level =
     \<lparr>key = 1, name = truncateIncidentName incident, parent = None\<rparr> #
     map (\<lambda>j. \<lparr>key = 2 + int j, name = level1Names ! j, parent = Some 1\<rparr>)
         [0..<firstLayerCount level] @
     (if level \<ge> 2
      then map (\<lambda>j. \<lparr>key = 2 + int (firstLayerCount level) + int j, name = level2Names ! j,
                      parent = Some (2 + int (j mod firstLayerCount level))\<rparr>)
               [0..<min (firstLayerCount level * 2) 6]
      else [])"
  unfolding generateGenericData_def Let_def level1Loop_closed level2Loop_closed
  by (auto simp: nth_map_upt[symmetric] simp del: upt_Suc)

lemma filter_parent_None_map:
  "filter (\<lambda>n. parent n = None) (map (\<lambda>j. \<lparr>key = f j, name = g j, parent = Some (h j)\<rparr>) xs) = []"
  by (induction xs) auto

text \<open>
  Claim C1. For every incident text and every level from 1 to 5 the generated list is the
  root (key 1, no parent), then \<open>min(5, level + 2)\<close> first-layer nodes with parent 1 and
  keys 2, 3, ..., then, when the level is at least 2, \<open>min(firstLayerCount * 2, 6)\<close>
  second-layer nodes, the \<open>i\<close>-th with the \<open>(i mod firstLayerCount)\<close>-th first-layer key as
  parent; the root is the only node without parent. At level 3 the list has 12 nodes.
\<close>

theorem generate_structure:
  fixes level :: int and repo :: 'r and incident :: string
  assumes "1 \<le> level" and "level \<le> 5"
  defines "r \<equiv> generateDiagram repo incident level"
      and "n1 \<equiv> nat (min 5 (level + 2))"
  defines "n2 \<equiv> (if level \<ge> 2 then min (n1 * 2) 6 else 0)"
  shows "length r = 1 + n1 + n2 \<and>
         r ! 0 = \<lparr>key = 1, name = truncateIncidentName incident, parent = None\<rparr> \<and>
         (\<forall>i < n1. key (r ! (1 + i)) = 2 + int i \<and> parent (r ! (1 + i)) = Some 1 \<and>
                   name (r ! (1 + i)) = level1Names ! i) \<and>
         (\<forall>i < n2. key (r ! (1 + n1 + i)) = 2 + int n1 + int i \<and>
                   parent (r ! (1 + n1 + i)) = Some (key (r ! (1 + i mod n1))) \<and>
                   name (r ! (1 + n1 + i)) = level2Names ! i) \<and>
         filter (\<lambda>n. parent n = None) r = [r ! 0]"
proof -
  have n1: "n1 = firstLayerCount level" by (simp add: n1_def firstLayerCount_def)
  have pos: "0 < n1" using assms(1) by (simp add: n1_def)
  have r: "r = \<lparr>key = 1, name = truncateIncidentName incident, parent = None\<rparr> #
     map (\<lambda>j. \<lparr>key = 2 + int j, name = level1Names ! j, parent = Some 1\<rparr>) [0..<n1] @
     map (\<lambda>j. \<lparr>key = 2 + int n1 + int j, name = level2Names ! j,
                      parent = Some (2 + int (j mod n1))\<rparr>) [0..<n2]"
    by (simp add: r_def generateDiagram_def fakeApiCall_def generateGenericData_closed n1 n2_def)
  have a: "length r = 1 + n1 + n2" by (simp add: r)
  have b: "r ! 0 = \<lparr>key = 1, name = truncateIncidentName incident, parent = None\<rparr>"
    by (simp add: r)
  have c: "\<forall>i < n1. key (r ! (1 + i)) = 2 + int i \<and> parent (r ! (1 + i)) = Some 1 \<and>
                   name (r ! (1 + i)) = level1Names ! i"
    by (simp add: r nth_append)
  have d: "\<forall>i < n2. key (r ! (1 + n1 + i)) = 2 + int n1 + int i \<and>
                   parent (r ! (1 + n1 + i)) = Some (key (r ! (1 + i mod n1))) \<and>
                   name (r ! (1 + n1 + i)) = level2Names ! i"
    using pos by (simp add: r nth_append)
  have e: "filter (\<lambda>n. parent n = None) r = [r ! 0]"
    by (simp add: r filter_parent_None_map)
  show ?thesis using a b c d e by blast
qed

theorem generate_structure_witness:
  "(1::int) \<le> 3 \<and> (3::int) \<le> 5 \<and>
   length (generateDiagram () ''Worker slipped on wet floor'' 3) = 12 \<and>
   generateDiagram () ''Worker slipped on wet floor'' 3 ! 0 =
     \<lparr>key = 1, name = ''Worker slipped on wet floor'', parent = None\<rparr>"
  using generate_structure[of 3 "()" "''Worker slipped on wet floor''"]
  by (simp add: truncateIncidentName_def)

text \<open>
  Claim C6. The root name is the incident text itself when the text has at most 30
  characters, and otherwise its first 27 characters followed by the three-character
  marker \<^verbatim>\<open>...\<close>, 30 characters in all; this holds at every level.
\<close>

theorem truncation_boundary:
  "(length incident \<le> 30 \<longrightarrow> name (hd (generateDiagram repo incident level)) = incident) \<and>
   (length incident > 30 \<longrightarrow>
      name (hd (generateDiagram repo incident level)) = take 27 incident @ ''...'' \<and>
      length (name (hd (generateDiagram repo incident level))) = 30)"
  by (simp add: generateDiagram_def fakeApiCall_def generateGenericData_closed
        truncateIncidentName_def)

theorem truncation_boundary_witness:
  "length (replicate 29 CHR ''x'') \<le> 30 \<and>
   name (hd (generateDiagram () (replicate 29 CHR ''x'') 3)) = replicate 29 CHR ''x'' \<and>
   length (replicate 31 CHR ''x'') > 30 \<and>
   name (hd (generateDiagram () (replicate 31 CHR ''x'') 3)) = replicate 27 CHR ''x'' @ ''...''"
  using truncation_boundary[of "replicate 29 CHR ''x''" "()" 3]
        truncation_boundary[of "replicate 31 CHR ''x''" "()" 3]
  by simp



section \<open>Stored diagrams\<close>

lemma findIndex_None: "findIndex P xs = None \<longleftrightarrow> (\<forall>x \<in> set xs. \<not> P x)"
  by (induction xs) auto

lemma findIndex_Some:
  "findIndex P xs = Some i \<Longrightarrow> i < length xs \<and> P (xs ! i) \<and> (\<forall>j < i. \<not> P (xs ! j))"
proof (induction xs arbitrary: i)
  case Nil
  then show ?case by simp
next
  case (Cons x xs)
  show ?case
  proof (cases "P x")
    case True
    with Cons.prems show ?thesis by simp
  next
    case False
    with Cons.prems obtain i' where i': "findIndex P xs = Some i'" "i = Suc i'" by auto
    from Cons.IH[OF i'(1)] False i'(2) show ?thesis
      by (auto simp: nth_Cons split: nat.splits)
  qed
qed

text \<open>
  Claim C10. \<^verbatim>\<open>updateDiagram\<close> never changes the \<^verbatim>\<open>id\<close>, \<^verbatim>\<open>incidentId\<close> or \<^verbatim>\<open>createdAt\<close> of any
  stored diagram; with an absent or empty title the stored titles are unchanged, with absent
  nodes the stored \<^verbatim>\<open>diagramJson\<close> values are unchanged; when no diagram has the given id (or
  the store is not loaded) the call fails with an error and the store is left as it was.
\<close>

theorem updateDiagram_frame:
  "updateDiagram stringify diagramId titleArg nodesArg None =
     (Inl (Error ''Incidents data not loaded''), None) \<and>
   (diagramId \<notin> id' ` set (diagrams d) \<longrightarrow>
      updateDiagram stringify diagramId titleArg nodesArg (Some d) =
        (Inl (Error ''Diagram not found''), Some d)) \<and>
   (diagramId \<in> id' ` set (diagrams d) \<longrightarrow>
      (\<exists>u d'. updateDiagram stringify diagramId titleArg nodesArg (Some d) = (Inr u, Some d') \<and>
         u \<in> set (diagrams d') \<and> id' u = diagramId \<and>
         incidents d' = incidents d \<and> stats d' = stats d \<and>
         length (diagrams d') = length (diagrams d) \<and>
         (\<forall>j < length (diagrams d).
            id' (diagrams d' ! j) = id' (diagrams d ! j) \<and>
            incidentId (diagrams d' ! j) = incidentId (diagrams d ! j) \<and>
            createdAt (diagrams d' ! j) = createdAt (diagrams d ! j) \<and>
            (\<not> truthyStr titleArg \<longrightarrow> title (diagrams d' ! j) = title (diagrams d ! j)) \<and>
            (nodesArg = None \<longrightarrow> diagramJson (diagrams d' ! j) = diagramJson (diagrams d ! j)))))"
proof (intro conjI impI)
  show "updateDiagram stringify diagramId titleArg nodesArg None =
     (Inl (Error ''Incidents data not loaded''), None)"
    by (simp add: updateDiagram_def)
next
  assume "diagramId \<notin> id' ` set (diagrams d)"
  then have "findIndex (\<lambda>x. id' x = diagramId) (diagrams d) = None"
    by (auto simp: findIndex_None)
  then show "updateDiagram stringify diagramId titleArg nodesArg (Some d) =
        (Inl (Error ''Diagram not found''), Some d)"
    by (simp add: updateDiagram_def)
next
  assume "diagramId \<in> id' ` set (diagrams d)"
  then have "findIndex (\<lambda>x. id' x = diagramId) (diagrams d) \<noteq> None"
    by (auto simp: findIndex_None)
  then obtain index where ix: "findIndex (\<lambda>x. id' x = diagramId) (diagrams d) = Some index"
    by auto
  from findIndex_Some[OF ix] have lt: "index < length (diagrams d)"
    and hit: "id' (diagrams d ! index) = diagramId" by auto
  define old where "old = diagrams d ! index"
  define u1 where "u1 = (case titleArg of None \<Rightarrow> old
                          | Some t \<Rightarrow> if t \<noteq> [] then old\<lparr>title := t\<rparr> else old)"
  define u2 where "u2 = (case nodesArg of None \<Rightarrow> u1
                          | Some nodes \<Rightarrow> u1\<lparr>diagramJson := stringify nodes\<rparr>)"
  define d' where "d' = d\<lparr>diagrams := (diagrams d)[index := u2]\<rparr>"
  have res: "updateDiagram stringify diagramId titleArg nodesArg (Some d) = (Inr u2, Some d')"
    unfolding d'_def u2_def u1_def old_def updateDiagram_def by (simp add: ix Let_def)
  have u1: "id' u1 = id' old" "incidentId u1 = incidentId old" "createdAt u1 = createdAt old"
    "\<not> truthyStr titleArg \<Longrightarrow> title u1 = title old" "diagramJson u1 = diagramJson old"
    by (auto simp: u1_def truthyStr_def split: option.splits)
  have u2: "id' u2 = id' old" "incidentId u2 = incidentId old" "createdAt u2 = createdAt old"
    "\<not> truthyStr titleArg \<Longrightarrow> title u2 = title old"
    "nodesArg = None \<Longrightarrow> diagramJson u2 = diagramJson old"
    using u1 by (auto simp: u2_def split: option.splits)
  have frame: "\<forall>j < length (diagrams d).
            id' (diagrams d' ! j) = id' (diagrams d ! j) \<and>
            incidentId (diagrams d' ! j) = incidentId (diagrams d ! j) \<and>
            createdAt (diagrams d' ! j) = createdAt (diagrams d ! j) \<and>
            (\<not> truthyStr titleArg \<longrightarrow> title (diagrams d' ! j) = title (diagrams d ! j)) \<and>
            (nodesArg = None \<longrightarrow> diagramJson (diagrams d' ! j) = diagramJson (diagrams d ! j))"
    using u2 lt by (auto simp: d'_def nth_list_update old_def)
  have mem: "u2 \<in> set (diagrams d')"
    using lt by (auto simp: d'_def set_update_memI)
  have "id' u2 = diagramId" using u2(1) hit by (simp add: old_def)
  with res frame mem show "\<exists>u d'. updateDiagram stringify diagramId titleArg nodesArg (Some d) = (Inr u, Some d') \<and>
         u \<in> set (diagrams d') \<and> id' u = diagramId \<and>
         incidents d' = incidents d \<and> stats d' = stats d \<and>
         length (diagrams d') = length (diagrams d) \<and>
         (\<forall>j < length (diagrams d).
            id' (diagrams d' ! j) = id' (diagrams d ! j) \<and>
            incidentId (diagrams d' ! j) = incidentId (diagrams d ! j) \<and>
            createdAt (diagrams d' ! j) = createdAt (diagrams d ! j) \<and>
            (\<not> truthyStr titleArg \<longrightarrow> title (diagrams d' ! j) = title (diagrams d ! j)) \<and>
            (nodesArg = None \<longrightarrow> diagramJson (diagrams d' ! j) = diagramJson (diagrams d ! j)))"
    by (intro exI[of _ u2] exI[of _ d']) (simp add: d'_def)
qed

theorem updateDiagram_frame_witness:
  "(8::int) \<notin> id' ` set (diagrams exampleStore) \<and>
   updateDiagram (\<lambda>_. ''[..]'') 8 (Some ''New'') None (Some exampleStore) =
     (Inl (Error ''Diagram not found''), Some exampleStore) \<and>
   (7::int) \<in> id' ` set (diagrams exampleStore) \<and> \<not> truthyStr (Some '''') \<and>
   (\<exists>u d'. updateDiagram (\<lambda>_. ''[..]'') 7 (Some '''') None (Some exampleStore) = (Inr u, Some d') \<and>
      title (diagrams d' ! 0) = ''Old title'' \<and> diagramJson (diagrams d' ! 0) = ''[]'' \<and>
      id' (diagrams d' ! 0) = 7 \<and> incidentId (diagrams d' ! 0) = 3 \<and>
      createdAt (diagrams d' ! 0) = 1700000000)"
proof -
  have a: "(8::int) \<notin> id' ` set (diagrams exampleStore)"
    and b: "(7::int) \<in> id' ` set (diagrams exampleStore)"
    and c: "\<not> truthyStr (Some '''')"
    by (simp_all add: exampleStore_def truthyStr_def)
  from updateDiagram_frame[of "\<lambda>_. ''[..]''" 8 "Some ''New''" None exampleStore] a
  have 1: "updateDiagram (\<lambda>_. ''[..]'') 8 (Some ''New'') None (Some exampleStore) =
     (Inl (Error ''Diagram not found''), Some exampleStore)" by blast
  from updateDiagram_frame[of "\<lambda>_. ''[..]''" 7 "Some ''''" None exampleStore] b
  obtain u d' where 2: "updateDiagram (\<lambda>_. ''[..]'') 7 (Some '''') None (Some exampleStore) = (Inr u, Some d')"
    and 3: "\<forall>j < length (diagrams exampleStore).
            id' (diagrams d' ! j) = id' (diagrams exampleStore ! j) \<and>
            incidentId (diagrams d' ! j) = incidentId (diagrams exampleStore ! j) \<and>
            createdAt (diagrams d' ! j) = createdAt (diagrams exampleStore ! j) \<and>
            (\<not> truthyStr (Some '''') \<longrightarrow> title (diagrams d' ! j) = title (diagrams exampleStore ! j)) \<and>
            ((None :: TreeNodeData list option) = None \<longrightarrow> diagramJson (diagrams d' ! j) = diagramJson (diagrams exampleStore ! j))"
    by blast
  from 3 c have "title (diagrams d' ! 0) = ''Old title'' \<and> diagramJson (diagrams d' ! 0) = ''[]'' \<and>
      id' (diagrams d' ! 0) = 7 \<and> incidentId (diagrams d' ! 0) = 3 \<and>
      createdAt (diagrams d' ! 0) = 1700000000"
    by (simp add: exampleStore_def)
  with a b c 1 2 show ?thesis by blast
qed


section \<open>Analysis-level labels\<close>

declare digitsOf.simps [simp del]

lemma digit_char: "d < 10 \<Longrightarrow> isDigit (''0123456789'' ! d) \<and> int (of_char (''0123456789'' ! d)) - 48 = int d"
proof -
  assume "d < 10"
  then have "d \<in> {0, 1, 2, 3, 4, 5, 6, 7, 8, 9}" by auto
  then show ?thesis by (auto simp: isDigit_def)
qed

lemma digitsOf_digits: "\<forall>c \<in> set (digitsOf n). isDigit c"
proof (induction n rule: digitsOf.induct)
  case (1 n)
  then show ?case
    by (subst digitsOf.simps) (auto simp: digit_char)
qed

lemma digitsOf_nonempty: "digitsOf n \<noteq> []"
  by (subst digitsOf.simps) simp

lemma parseInt10_snoc: "parseInt10 (ds @ [c]) = 10 * parseInt10 ds + (int (of_char c) - 48)"
  by (simp add: parseInt10_def)

lemma parseInt10_digitsOf: "parseInt10 (digitsOf n) = int n"
proof (induction n rule: digitsOf.induct)
  case (1 n)
  show ?case
  proof (cases "n < 10")
    case True
    then show ?thesis
      by (subst digitsOf.simps) (simp add: parseInt10_def digit_char)
  next
    case False
    with 1 have ih: "parseInt10 (digitsOf (n div 10)) = int (n div 10)" by simp
    have "parseInt10 (digitsOf n) = 10 * int (n div 10) + int (n mod 10)"
      using False ih by (subst digitsOf.simps) (simp add: parseInt10_snoc digit_char)
    then show ?thesis by (simp add: zdiv_int zmod_int)
  qed
qed

lemma matchLevel_Some_iff:
  "matchLevel s \<noteq> None \<longleftrightarrow> (\<exists>pre d rest. s = pre @ ''Level '' @ d # rest \<and> isDigit d)"
proof
  show "matchLevel s \<noteq> None \<Longrightarrow> \<exists>pre d rest. s = pre @ ''Level '' @ d # rest \<and> isDigit d"
  proof (induction s)
    case Nil
    then show ?case by simp
  next
    case (Cons c cs)
    show ?case
    proof (cases "take 6 (c # cs) = ''Level '' \<and> takeWhile isDigit (drop 6 (c # cs)) \<noteq> []")
      case True
      then obtain d rest where dr: "drop 6 (c # cs) = d # rest" "isDigit d"
        by (cases "drop 6 (c # cs)") (auto split: if_splits)
      have "c # cs = take 6 (c # cs) @ drop 6 (c # cs)" by (simp only: append_take_drop_id)
      with True dr have "c # cs = [] @ ''Level '' @ d # rest" by simp
      with dr(2) show ?thesis by blast
    next
      case False
      with Cons.prems have "matchLevel cs \<noteq> None" by (auto simp: Let_def)
      from Cons.IH[OF this] obtain pre d rest where "cs = pre @ ''Level '' @ d # rest" "isDigit d"
        by blast
      then have "c # cs = (c # pre) @ ''Level '' @ d # rest" by simp
      with \<open>isDigit d\<close> show ?thesis by blast
    qed
  qed
next
  assume "\<exists>pre d rest. s = pre @ ''Level '' @ d # rest \<and> isDigit d"
  then obtain pre d rest where s: "s = pre @ ''Level '' @ d # rest" and d: "isDigit d" by blast
  show "matchLevel s \<noteq> None"
    unfolding s using d
  proof (induction pre)
    case Nil
    then show ?case by simp
  next
    case (Cons c pre)
    then show ?case by (simp add: Let_def)
  qed
qed

lemma takeWhile_nonempty: "takeWhile P xs \<noteq> [] \<Longrightarrow> \<exists>d r. xs = d # r \<and> P d"
  by (cases xs) (auto split: if_splits)

lemma matchLevel_head:
  assumes "take 6 s = ''Level ''" and "takeWhile isDigit (drop 6 s) \<noteq> []"
  shows "\<exists>d r. s = ''Level '' @ d # r \<and> isDigit d"
proof -
  from takeWhile_nonempty[OF assms(2)] obtain d r where dr: "drop 6 s = d # r" "isDigit d"
    by blast
  have "s = take 6 s @ drop 6 s" by (simp only: append_take_drop_id)
  then have "s = ''Level '' @ d # r" by (simp only: assms(1) dr(1))
  with dr(2) show ?thesis by blast
qed

lemma matchLevel_skip:
  assumes "\<nexists>d r. c # s = ''Level '' @ d # r \<and> isDigit d"
  shows "matchLevel (c # s) = matchLevel s"
proof -
  have "\<not> (take 6 (c # s) = ''Level '' \<and> takeWhile isDigit (drop 6 (c # s)) \<noteq> [])"
    using matchLevel_head[of "c # s"] assms by blast
  then have "(if take 6 (c # s) = ''Level '' \<and> takeWhile isDigit (drop 6 (c # s)) \<noteq> []
              then Some (takeWhile isDigit (drop 6 (c # s))) else matchLevel s) = matchLevel s"
    by (rule if_not_P)
  then show ?thesis by (simp only: matchLevel.simps Let_def)
qed

lemma matchLevel_here:
  assumes "ds \<noteq> []" and "\<forall>c \<in> set ds. isDigit c" and "rest = [] \<or> \<not> isDigit (hd rest)"
  shows "matchLevel (''Level '' @ ds @ rest) = Some ds"
proof -
  have "takeWhile isDigit (ds @ rest) = ds"
    using assms(2,3) by (cases rest) (auto simp: takeWhile_append2)
  then show ?thesis using assms(1) by simp
qed

lemma matchLevel_leftmost:
  assumes ds: "ds \<noteq> []" "\<forall>c \<in> set ds. isDigit c"
      and rest: "rest = [] \<or> \<not> isDigit (hd rest)"
      and first: "\<forall>pre' d' rest'. pre @ ''Level '' @ ds @ rest = pre' @ ''Level '' @ d' # rest' \<and>
                    isDigit d' \<longrightarrow> length pre \<le> length pre'"
  shows "matchLevel (pre @ ''Level '' @ ds @ rest) = Some ds"
  using first
proof (induction pre)
  case Nil
  show ?case unfolding append_Nil using ds rest by (rule matchLevel_here)
next
  case (Cons c pre)
  define s where "s = pre @ ''Level '' @ ds @ rest"
  have e: "(c # pre) @ ''Level '' @ ds @ rest = c # s" by (simp add: s_def)
  have nohead: "\<nexists>d r. c # s = ''Level '' @ d # r \<and> isDigit d"
  proof
    assume "\<exists>d r. c # s = ''Level '' @ d # r \<and> isDigit d"
    then obtain d r where dr: "c # s = ''Level '' @ d # r" "isDigit d" by blast
    have "(c # pre) @ ''Level '' @ ds @ rest = [] @ ''Level '' @ d # r"
      unfolding e dr(1) by simp
    with Cons.prems dr(2) have "length (c # pre) \<le> length ([] :: string)" by blast
    then show False by simp
  qed
  have "\<forall>pre' d' rest'. pre @ ''Level '' @ ds @ rest = pre' @ ''Level '' @ d' # rest' \<and> isDigit d' \<longrightarrow>
           length pre \<le> length pre'"
  proof (intro allI impI)
    fix pre' d' rest'
    assume a: "pre @ ''Level '' @ ds @ rest = pre' @ ''Level '' @ d' # rest' \<and> isDigit d'"
    then have "(c # pre) @ ''Level '' @ ds @ rest = (c # pre') @ ''Level '' @ d' # rest'"
      by (simp only: append_Cons)
    with a Cons.prems have "length (c # pre) \<le> length (c # pre')" by blast
    then show "length pre \<le> length pre'" by simp
  qed
  from Cons.IH[OF this] have "matchLevel s = Some ds" unfolding s_def .
  then show ?case unfolding e using matchLevel_skip[OF nohead] by (simp only:)
qed

lemma parseInt10_append:
  "parseInt10 (xs @ ys) = fold (\<lambda>c n. 10 * n + (int (of_char c) - 48)) ys (parseInt10 xs)"
  by (simp add: parseInt10_def)

lemma parseInt10_zeros: "parseInt10 (replicate z CHR ''0'') = 0"
  by (induction z) (simp_all add: parseInt10_def)

lemma parseInt10_leading_zeros: "parseInt10 (replicate z CHR ''0'' @ ds) = parseInt10 ds"
  unfolding parseInt10_append parseInt10_zeros by (simp add: parseInt10_def)

text \<open>
  What the extractions of the history view and of the editor compute, for every label. The
  pattern is searched in the whole label and in exactly the spelling \<^verbatim>\<open>Level\<close>: without an
  occurrence the results are the fallbacks 1 and 3 (3 also for an absent label); otherwise
  the result is the value of the run of digits at the leftmost occurrence, which for the
  numeral of \<open>n\<close>, with or without leading zeros, is \<open>n\<close> (below \<open>2 ^ 53\<close>, where JavaScript
  numbers are exact).
\<close>

lemma extraction_no_match:
  assumes "\<nexists>pre d rest. label = pre @ ''Level '' @ d # rest \<and> isDigit d"
  shows "extractLevelFromAnalysisLevel label = 1 \<and> extractLevelNumber (Some label) = 3"
proof -
  have "matchLevel label = None" using assms matchLevel_Some_iff[of label] by blast
  then show ?thesis by (simp add: extractLevelFromAnalysisLevel_def extractLevelNumber_def)
qed

lemma extractLevelNumber_absent: "extractLevelNumber None = 3 \<and> extractLevelNumber (Some []) = 3"
  by (simp add: extractLevelNumber_def)

lemma extraction_of_match:
  assumes "matchLevel label = Some ds" and "label \<noteq> []"
  shows "extractLevelFromAnalysisLevel label = parseInt10 ds \<and>
         extractLevelNumber (Some label) = parseInt10 ds"
  using assms by (simp add: extractLevelFromAnalysisLevel_def extractLevelNumber_def
                       del: matchLevel.simps)

lemma extraction_leftmost_match:
  assumes "n < 2 ^ 53"
      and "rest = [] \<or> \<not> isDigit (hd rest)"
      and "\<forall>pre' d' rest'.
             pre @ ''Level '' @ (replicate z CHR ''0'' @ digitsOf n) @ rest =
               pre' @ ''Level '' @ d' # rest' \<and> isDigit d' \<longrightarrow> length pre \<le> length pre'"
  shows "extractLevelFromAnalysisLevel
           (pre @ ''Level '' @ (replicate z CHR ''0'' @ digitsOf n) @ rest) = int n \<and>
         extractLevelNumber
           (Some (pre @ ''Level '' @ (replicate z CHR ''0'' @ digitsOf n) @ rest)) = int n"
proof -
  define ds where "ds = replicate z CHR ''0'' @ digitsOf n"
  define label where "label = pre @ ''Level '' @ ds @ rest"
  have ne: "ds \<noteq> []" using digitsOf_nonempty[of n] by (simp add: ds_def)
  have z: "isDigit CHR ''0''" by (simp add: isDigit_def)
  have dg: "\<forall>c \<in> set ds. isDigit c" using digitsOf_digits[of n] z by (auto simp: ds_def)
  have m: "matchLevel label = Some ds"
    unfolding label_def using ne dg assms(2) assms(3)[folded ds_def] by (rule matchLevel_leftmost)
  have v: "parseInt10 ds = int n"
    unfolding ds_def parseInt10_leading_zeros by (rule parseInt10_digitsOf)
  have l: "label \<noteq> []" by (simp add: label_def)
  from extraction_of_match[OF m l] have
    "extractLevelFromAnalysisLevel label = int n \<and> extractLevelNumber (Some label) = int n"
    by (simp only: v)
  then show ?thesis unfolding label_def ds_def .
qed

lemma extraction_example:
  "extractLevelFromAnalysisLevel ''Priority Level 2'' = 2 \<and>
   extractLevelNumber (Some ''Priority Level 2'') = 2 \<and>
   extractLevelFromAnalysisLevel ''Level 4 - Detailed Analysis'' = 4 \<and>
   extractLevelNumber (Some ''Level 4 - Detailed Analysis'') = 4 \<and>
   extractLevelFromAnalysisLevel ''Unknown'' = 1 \<and> extractLevelNumber (Some ''Unknown'') = 3"
  by (simp add: extractLevelFromAnalysisLevel_def extractLevelNumber_def isDigit_def
        parseInt10_def)

text \<open>
  Claim C9 at the label \<^verbatim>\<open>level 4 - Detailed Analysis\<close>. Matched without regard to case, as
  the claim has it, the pattern finds the number 4 there, and the extraction of the user
  dashboard, with the \<^verbatim>\<open>i\<close> flag, returns 4; the extractions of the history view and of the
  editor, the same pattern without the flag, return their fallbacks 1 and 3.
\<close>

theorem level_extraction_lower_case:
  "matchLevelIgnoreCase ''level 4 - Detailed Analysis'' = Some ''4'' \<and>
   extractLevelNumber_dashboard ''level 4 - Detailed Analysis'' = 4 \<and>
   extractLevelFromAnalysisLevel ''level 4 - Detailed Analysis'' = 1 \<and>
   extractLevelNumber (Some ''level 4 - Detailed Analysis'') = 3"
  by (simp add: extractLevelFromAnalysisLevel_def extractLevelNumber_def isDigit_def lowerChar_def
        extractLevelNumber_dashboard_def parseInt10_def)


section \<open>Editor operations on a single node\<close>

lemma trim_Nil: "trim [] = []"
  by (simp add: trim_def)

lemma trim_empty_iff: "trim s = [] \<longleftrightarrow> (\<forall>c \<in> set s. isWhitespace c)"
proof
  assume "trim s = []"
  then have "dropWhile isWhitespace (rev (dropWhile isWhitespace s)) = []"
    by (simp only: trim_def rev_is_Nil_conv)
  then have "\<forall>c \<in> set (rev (dropWhile isWhitespace s)). isWhitespace c"
    by (simp only: dropWhile_eq_Nil_conv)
  then have a: "\<forall>c \<in> set (dropWhile isWhitespace s). isWhitespace c"
    by (simp only: set_rev)
  have "dropWhile isWhitespace s = []"
  proof (rule ccontr)
    assume n: "dropWhile isWhitespace s \<noteq> []"
    then have "\<not> isWhitespace (hd (dropWhile isWhitespace s))" by (rule hd_dropWhile)
    moreover have "hd (dropWhile isWhitespace s) \<in> set (dropWhile isWhitespace s)"
      using n by (rule hd_in_set)
    ultimately show False using a by blast
  qed
  then show "\<forall>c \<in> set s. isWhitespace c" by (simp only: dropWhile_eq_Nil_conv)
next
  assume "\<forall>c \<in> set s. isWhitespace c"
  then have "dropWhile isWhitespace s = []" by (simp only: dropWhile_eq_Nil_conv)
  then show "trim s = []" by (simp only: trim_def rev.simps dropWhile.simps)
qed

lemma rev_split_whitespace:
  "t = rev (dropWhile isWhitespace (rev t)) @ rev (takeWhile isWhitespace (rev t))"
proof -
  have "t = rev (rev t)" by simp
  also have "\<dots> = rev (takeWhile isWhitespace (rev t) @ dropWhile isWhitespace (rev t))"
    by (simp only: takeWhile_dropWhile_id)
  also have "\<dots> = rev (dropWhile isWhitespace (rev t)) @ rev (takeWhile isWhitespace (rev t))"
    by (simp only: rev_append)
  finally show ?thesis .
qed

lemma trim_decomposition:
  "\<exists>a b. s = a @ trim s @ b \<and> (\<forall>c \<in> set a. isWhitespace c) \<and> (\<forall>c \<in> set b. isWhitespace c)"
proof -
  define t where "t = dropWhile isWhitespace s"
  define a where "a = takeWhile isWhitespace s"
  define b where "b = rev (takeWhile isWhitespace (rev t))"
  have tr: "trim s = rev (dropWhile isWhitespace (rev t))" by (simp only: trim_def t_def)
  have "s = a @ t" by (simp only: a_def t_def takeWhile_dropWhile_id)
  moreover have "t = trim s @ b" unfolding tr b_def by (rule rev_split_whitespace)
  ultimately have s: "s = a @ trim s @ b" by simp
  have wa: "\<forall>c \<in> set a. isWhitespace c"
    using set_takeWhileD[of _ isWhitespace s] unfolding a_def by blast
  have "\<forall>c \<in> set (takeWhile isWhitespace (rev t)). isWhitespace c"
    using set_takeWhileD[of _ isWhitespace "rev t"] by blast
  then have wb: "\<forall>c \<in> set b. isWhitespace c" by (simp only: b_def set_rev)
  from s wa wb show ?thesis by blast
qed

lemma trim_ends:
  assumes "trim s \<noteq> []"
  shows "\<not> isWhitespace (hd (trim s)) \<and> \<not> isWhitespace (last (trim s))"
proof -
  define t where "t = dropWhile isWhitespace s"
  define u where "u = dropWhile isWhitespace (rev t)"
  have tr: "trim s = rev u" by (simp only: trim_def t_def u_def)
  have n: "u \<noteq> []" using assms unfolding tr by simp
  have "\<not> isWhitespace (hd u)" using n unfolding u_def by (rule hd_dropWhile)
  moreover have "last (rev u) = hd u" using n by (simp add: last_rev)
  ultimately have l: "\<not> isWhitespace (last (trim s))" by (simp add: tr)
  have t: "t = trim s @ rev (takeWhile isWhitespace (rev t))"
    unfolding tr u_def by (rule rev_split_whitespace)
  then have "t \<noteq> []" using assms by auto
  then have "\<not> isWhitespace (hd t)" unfolding t_def by (rule hd_dropWhile)
  moreover have "hd t = hd (trim s)" using t assms by (metis hd_append2)
  ultimately show ?thesis using l by simp
qed

text \<open>
  Claim C5. The trimmed text is the text without its leading and trailing white space, and
  it is empty exactly when the text consists of white space only. Renaming with a text that
  is empty after trimming only records the error message: the node list and the edit mode
  are as before, so the node keeps its name. With a text that is not empty after trimming,
  every node with the given key gets the trimmed text as its name, all its other fields and
  every other node are unchanged, and edit mode is left.
\<close>

theorem rename_validation:
  "(trim newText = [] \<longleftrightarrow> (\<forall>c \<in> set newText. isWhitespace c)) \<and>
   (\<exists>a b. newText = a @ trim newText @ b \<and>
          (\<forall>c \<in> set a. isWhitespace c) \<and> (\<forall>c \<in> set b. isWhitespace c)) \<and>
   (trim newText \<noteq> [] \<longrightarrow>
      \<not> isWhitespace (hd (trim newText)) \<and> \<not> isWhitespace (last (trim newText))) \<and>
   (trim newText = [] \<longrightarrow>
      updateNodeText nodeKey newText st = st\<lparr>diagramError := ''Node text cannot be empty.''\<rparr> \<and>
      diagramData (updateNodeText nodeKey newText st) = diagramData st \<and>
      editingNodeId (updateNodeText nodeKey newText st) = editingNodeId st) \<and>
   (trim newText \<noteq> [] \<longrightarrow>
      length (diagramData (updateNodeText nodeKey newText st)) = length (diagramData st) \<and>
      (\<forall>i < length (diagramData st).
         (key (diagramData st ! i) = nodeKey \<longrightarrow>
            diagramData (updateNodeText nodeKey newText st) ! i =
              (diagramData st ! i)\<lparr>name := trim newText\<rparr>) \<and>
         (key (diagramData st ! i) \<noteq> nodeKey \<longrightarrow>
            diagramData (updateNodeText nodeKey newText st) ! i = diagramData st ! i)) \<and>
      editingNodeId (updateNodeText nodeKey newText st) = None \<and>
      diagramError (updateNodeText nodeKey newText st) = [])"
proof (intro conjI impI)
  show "trim newText = [] \<longleftrightarrow> (\<forall>c \<in> set newText. isWhitespace c)" by (rule trim_empty_iff)
  show "\<exists>a b. newText = a @ trim newText @ b \<and>
          (\<forall>c \<in> set a. isWhitespace c) \<and> (\<forall>c \<in> set b. isWhitespace c)"
    by (rule trim_decomposition)
next
  assume "trim newText \<noteq> []"
  then show "\<not> isWhitespace (hd (trim newText))" and "\<not> isWhitespace (last (trim newText))"
    using trim_ends by blast+
next
  assume e: "trim newText = []"
  then show "updateNodeText nodeKey newText st = st\<lparr>diagramError := ''Node text cannot be empty.''\<rparr>"
    by (simp add: updateNodeText_def)
  then show "diagramData (updateNodeText nodeKey newText st) = diagramData st"
    and "editingNodeId (updateNodeText nodeKey newText st) = editingNodeId st"
    by simp_all
next
  assume ne: "trim newText \<noteq> []"
  then have "newText \<noteq> []" using trim_Nil by auto
  with ne have u: "updateNodeText nodeKey newText st =
     st\<lparr>diagramData := map (\<lambda>node. if key node = nodeKey then node\<lparr>name := trim newText\<rparr> else node)
                            (diagramData st),
        editingNodeId := None, diagramError := []\<rparr>"
    by (simp add: updateNodeText_def stopEditingNode_def Let_def)
  show "length (diagramData (updateNodeText nodeKey newText st)) = length (diagramData st)"
    by (simp add: u)
  show "\<forall>i < length (diagramData st).
         (key (diagramData st ! i) = nodeKey \<longrightarrow>
            diagramData (updateNodeText nodeKey newText st) ! i =
              (diagramData st ! i)\<lparr>name := trim newText\<rparr>) \<and>
         (key (diagramData st ! i) \<noteq> nodeKey \<longrightarrow>
            diagramData (updateNodeText nodeKey newText st) ! i = diagramData st ! i)"
    by (simp add: u)
  show "editingNodeId (updateNodeText nodeKey newText st) = None" by (simp add: u)
  show "diagramError (updateNodeText nodeKey newText st) = []" by (simp add: u)
qed

lemma trim_spaces: "trim ''   '' = []"
  by (simp add: trim_def isWhitespace_def)

lemma trim_no_break_space: "trim [CHR 0xA0, CHR 0x09] = []"
  by (simp add: trim_def isWhitespace_def)

lemma trim_example: "trim '' Fatigue '' = ''Fatigue''"
  by (simp add: trim_def isWhitespace_def)

theorem rename_validation_witness:
  "trim ''   '' = [] \<and>
   name (diagramData (updateNodeText 2 ''   '' exampleEditor) ! 1) = ''Human Factor'' \<and>
   diagramData (updateNodeText 2 ''   '' exampleEditor) = diagramData exampleEditor \<and>
   trim [CHR 0xA0, CHR 0x09] = [] \<and>
   diagramData (updateNodeText 2 [CHR 0xA0, CHR 0x09] exampleEditor) = diagramData exampleEditor \<and>
   trim '' Fatigue '' \<noteq> [] \<and>
   name (diagramData (updateNodeText 2 '' Fatigue '' exampleEditor) ! 1) = ''Fatigue'' \<and>
   diagramData (updateNodeText 2 '' Fatigue '' exampleEditor) ! 0 = diagramData exampleEditor ! 0 \<and>
   editingNodeId (updateNodeText 2 '' Fatigue '' exampleEditor) = None"
  using rename_validation[of "''   ''" 2 exampleEditor]
        rename_validation[of "[CHR 0xA0, CHR 0x09]" 2 exampleEditor]
        rename_validation[of "'' Fatigue ''" 2 exampleEditor]
  by (simp add: trim_spaces trim_no_break_space trim_example exampleEditor_def)

lemma fold_max_keys: "fold max ks (a::int) = Max (insert a (set ks))"
  using Max.set_eq_fold[of a ks] by simp

text \<open>
  Claim C7, as amended. On a node list whose keys are below \<open>2 ^ 53\<close>, the range in which
  the addition of the source is exact, \<^verbatim>\<open>addNewNode\<close> appends exactly one node, named
  \<^verbatim>\<open>New Analysis Point\<close> and without parent, leaves the existing nodes as they are and puts
  the new node into edit mode. Its key is the largest existing key plus 1 when that key is
  at least 0, and 1 when the list is empty or every key is negative. The number of
  parentless nodes grows by one.
\<close>

theorem addNode_appends:
  assumes safe: "\<forall>n \<in> set (diagramData st). key n < 2 ^ 53"
  shows "\<exists>newNode.
     diagramData (addNewNode st) = diagramData st @ [newNode] \<and>
     name newNode = ''New Analysis Point'' \<and> parent newNode = None \<and>
     editingNodeId (addNewNode st) = Some (key newNode) \<and>
     (diagramData st = [] \<longrightarrow> key newNode = 1) \<and>
     (diagramData st \<noteq> [] \<and> 0 \<le> Max (key ` set (diagramData st)) \<longrightarrow>
        key newNode = Max (key ` set (diagramData st)) + 1) \<and>
     (diagramData st \<noteq> [] \<and> Max (key ` set (diagramData st)) < 0 \<longrightarrow> key newNode = 1) \<and>
     length (filter (\<lambda>n. parent n = None) (diagramData (addNewNode st))) =
       Suc (length (filter (\<lambda>n. parent n = None) (diagramData st)))"
proof -
  define maxKey where "maxKey = fold max (map key (diagramData st)) 0"
  define newNode where "newNode = \<lparr>key = maxKey + 1, name = ''New Analysis Point'', parent = None\<rparr>"
  have a: "addNewNode st = st\<lparr>diagramData := diagramData st @ [newNode],
                               editingNodeId := Some (key newNode)\<rparr>"
    by (simp add: addNewNode_def Let_def newNode_def maxKey_def)
  have m: "maxKey = Max (insert 0 (key ` set (diagramData st)))"
    by (simp add: maxKey_def fold_max_keys)
  have e: "diagramData st = [] \<Longrightarrow> key newNode = 1"
    by (simp add: newNode_def m)
  have ne: "diagramData st \<noteq> [] \<Longrightarrow> maxKey = max 0 (Max (key ` set (diagramData st)))"
    by (simp add: m)
  have p: "diagramData st \<noteq> [] \<and> 0 \<le> Max (key ` set (diagramData st)) \<longrightarrow>
        key newNode = Max (key ` set (diagramData st)) + 1"
    using ne by (simp add: newNode_def)
  have n: "diagramData st \<noteq> [] \<and> Max (key ` set (diagramData st)) < 0 \<longrightarrow> key newNode = 1"
    using ne by (simp add: newNode_def)
  show ?thesis
    using e p n by (intro exI[of _ newNode]) (simp add: a, simp add: newNode_def)
qed

text \<open>
  Claim C7 as stated fails on a list whose keys are all negative: the new key is 1, not the
  largest key plus 1.
\<close>

theorem addNode_negative_keys_counterexample:
  "diagramData detachedEditor \<noteq> [] \<and>
   key (last (diagramData (addNewNode detachedEditor))) = 1 \<and>
   Max (key ` set (diagramData detachedEditor)) + 1 = - 4"
  by (simp add: addNewNode_def detachedEditor_def)

theorem addNode_appends_witness:
  "Max (key ` set (diagramData exampleEditor)) < 2 ^ 53 \<and>
   diagramData exampleEditor \<noteq> [] \<and> 0 \<le> Max (key ` set (diagramData exampleEditor)) \<and>
   diagramData (addNewNode exampleEditor) =
     diagramData exampleEditor @ [\<lparr>key = 5, name = ''New Analysis Point'', parent = None\<rparr>] \<and>
   editingNodeId (addNewNode exampleEditor) = Some 5"
proof -
  have h: "diagramData exampleEditor \<noteq> []" "Max (key ` set (diagramData exampleEditor)) = 4"
    by (simp_all add: exampleEditor_def)
  have s: "\<forall>n \<in> set (diagramData exampleEditor). key n < 2 ^ 53"
    by (simp add: exampleEditor_def)
  from addNode_appends[OF s] obtain newNode where
    n: "diagramData (addNewNode exampleEditor) = diagramData exampleEditor @ [newNode]"
       "name newNode = ''New Analysis Point''" "parent newNode = None"
       "editingNodeId (addNewNode exampleEditor) = Some (key newNode)"
       "diagramData exampleEditor \<noteq> [] \<and> 0 \<le> Max (key ` set (diagramData exampleEditor)) \<longrightarrow>
          key newNode = Max (key ` set (diagramData exampleEditor)) + 1"
    by blast
  from n(5) h have k: "key newNode = 5" by simp
  have "newNode = \<lparr>key = 5, name = ''New Analysis Point'', parent = None\<rparr>"
    using k n(2,3) by (cases newNode) simp
  with n h show ?thesis by simp
qed

text \<open>
  What \<^verbatim>\<open>regenerateDiagram\<close> does, by the value its read of \<^verbatim>\<open>canRegenerateDiagram\<close> returns:
  the value computed from the form on the first read, the kept value afterwards.
\<close>

lemma canRegenerateDiagram_body_iff:
  "canRegenerateDiagram_body st \<longleftrightarrow>
     (\<exists>d. formDescription st = Some d \<and> length (trim d) > 10) \<and> truthyStr (formAnalysisLevel st)"
  by (cases "formDescription st") (auto simp: canRegenerateDiagram_body_def truthyStr_def Let_def)

lemma canRegenerateDiagram_first_read:
  "canRegenerateMemo st = None \<Longrightarrow>
   canRegenerateDiagram st =
     (canRegenerateDiagram_body st, st\<lparr>canRegenerateMemo := Some (canRegenerateDiagram_body st)\<rparr>)"
  by (simp add: canRegenerateDiagram_def Let_def)

lemma canRegenerateDiagram_later_read:
  "canRegenerateMemo st = Some v \<Longrightarrow> canRegenerateDiagram st = (v, st)"
  by (simp add: canRegenerateDiagram_def)

lemma regenerateDiagram_refused:
  "canRegenerateDiagram st = (False, st0) \<Longrightarrow>
   regenerateDiagram repo st =
     st0\<lparr>diagramError := ''Please provide incident description and select a level first.''\<rparr>"
  by (simp add: regenerateDiagram_def)

lemma generateDiagram_nonempty: "generateDiagram repo incident level \<noteq> []"
  by (simp add: generateDiagram_def fakeApiCall_def generateGenericData_closed)

lemma regenerateDiagram_accepted:
  assumes "canRegenerateDiagram st = (True, st0)" and "formDescription st = Some d"
      and "10 \<le> length (trim d)"
  shows "regenerateDiagram repo st =
     st0\<lparr>diagramData := generateDiagram repo (trim d) (extractLevelNumber (formAnalysisLevel st)),
         editingNodeId := None, diagramError := [], isGeneratingDiagram := False\<rparr>"
proof -
  have f: "formDescription st0 = formDescription st" "formAnalysisLevel st0 = formAnalysisLevel st"
    using assms(1) by (auto simp: canRegenerateDiagram_def Let_def split: option.splits)
  have "trim d \<noteq> []" "\<not> length (trim d) < 10" using assms(3) by auto
  then show ?thesis
    using assms(1,2) f
      generateDiagram_nonempty[of repo "trim d" "extractLevelNumber (formAnalysisLevel st)"]
    by (simp add: regenerateDiagram_def Let_def)
qed

lemma regenerateDiagram_too_short:
  assumes "canRegenerateDiagram st = (True, st0)" and "formDescription st = Some d"
      and "length (trim d) < 10"
  shows "regenerateDiagram repo st =
     st0\<lparr>editingNodeId := None,
         diagramError := ''Incident description must be at least 10 characters long.'',
         isGeneratingDiagram := False\<rparr>"
proof -
  have f: "formDescription st0 = formDescription st"
    using assms(1) by (auto simp: canRegenerateDiagram_def Let_def split: option.splits)
  show ?thesis
    using assms f by (simp add: regenerateDiagram_def Let_def)
qed

text \<open>
  On the first read of the guard, a description of exactly ten characters is refused,
  whatever the level; once the guard has been read as true, the same description is accepted.
\<close>

lemma regenerateDiagram_ten_first_read:
  assumes "canRegenerateMemo st = None" and "formDescription st = Some d"
      and "length (trim d) = 10"
  shows "regenerateDiagram repo st =
     st\<lparr>canRegenerateMemo := Some False,
        diagramError := ''Please provide incident description and select a level first.''\<rparr>"
proof -
  have "\<not> canRegenerateDiagram_body st" using assms(2,3) by (simp add: canRegenerateDiagram_body_iff)
  then have "canRegenerateDiagram st = (False, st\<lparr>canRegenerateMemo := Some False\<rparr>)"
    using canRegenerateDiagram_first_read[OF assms(1)] by simp
  from regenerateDiagram_refused[OF this] show ?thesis .
qed

lemma regenerateDiagram_ten_kept_true:
  assumes "canRegenerateMemo st = Some True" and "formDescription st = Some d"
      and "length (trim d) = 10"
  shows "diagramData (regenerateDiagram repo st) =
           generateDiagram repo (trim d) (extractLevelNumber (formAnalysisLevel st)) \<and>
         editingNodeId (regenerateDiagram repo st) = None"
proof -
  have c: "canRegenerateDiagram st = (True, st)"
    using canRegenerateDiagram_later_read[OF assms(1)] .
  have t: "10 \<le> length (trim d)" using assms(3) by simp
  have "regenerateDiagram repo st =
     st\<lparr>diagramData := generateDiagram repo (trim d) (extractLevelNumber (formAnalysisLevel st)),
        editingNodeId := None, diagramError := [], isGeneratingDiagram := False\<rparr>"
    using c assms(2) t by (rule regenerateDiagram_accepted)
  then show ?thesis by simp
qed

text \<open>
  Claim C4 on a component whose guard has not been read, at a description of exactly ten
  characters with a level selected: the call is refused with the message of the guard, the
  node list and the edit mode are as before, and the guard keeps the value false, although
  the description is not shorter than ten characters.
\<close>

theorem regenerate_ten_characters:
  "canRegenerateMemo exampleEditor = None \<and>
   formDescription exampleEditor = Some ''0123456789'' \<and>
   length (trim ''0123456789'') = 10 \<and>
   truthyStr (formAnalysisLevel exampleEditor) \<and>
   regenerateDiagram () exampleEditor =
     exampleEditor\<lparr>canRegenerateMemo := Some False,
                   diagramError := ''Please provide incident description and select a level first.''\<rparr>"
  by (simp add: regenerateDiagram_def canRegenerateDiagram_def canRegenerateDiagram_body_def
        exampleEditor_def trim_def isWhitespace_def truthyStr_def)


section \<open>Trees in flat lists\<close>

subsection \<open>Parent chains\<close>

lemma climb_mono: "climb f lk k = Some r \<Longrightarrow> f \<le> f' \<Longrightarrow> climb f' lk k = Some r"
proof (induction f arbitrary: k r f')
  case 0
  then show ?case by simp
next
  case (Suc f)
  then obtain f'' where f': "f' = Suc f''" "f \<le> f''" by (cases f') auto
  show ?case
  proof (cases "parentOf lk k")
    case None
    with Suc.prems f' show ?thesis by simp
  next
    case (Some p)
    with Suc.prems obtain r' where r': "climb f lk p = Some r'" "r = Suc r'" by auto
    from Suc.IH[OF r'(1) f'(2)] Some r'(2) f'(1) show ?thesis by simp
  qed
qed

lemma climb_less: "climb f lk k = Some r \<Longrightarrow> r < f"
proof (induction f arbitrary: k r)
  case 0
  then show ?case by simp
next
  case (Suc f)
  then show ?case by (cases "parentOf lk k") auto
qed

lemma climb_parent:
  assumes "parentOf lk k = Some p" and "climb f lk k = Some r"
  shows "\<exists>r'. r = Suc r' \<and> climb f lk p = Some r'"
proof (cases f)
  case 0
  with assms show ?thesis by simp
next
  case (Suc f0)
  with assms obtain r' where r': "climb f0 lk p = Some r'" "r = Suc r'" by auto
  from climb_mono[OF r'(1), of f] Suc have "climb f lk p = Some r'" by simp
  with r'(2) show ?thesis by simp
qed

lemma parentOf_entry: "distinct (map fst lk) \<Longrightarrow> (k, po) \<in> set lk \<Longrightarrow> parentOf lk k = po"
  by (simp add: parentOf_def)

lemma depthOf_climb:
  assumes "noCycles lk" and "k \<in> fst ` set lk"
  shows "climb (length lk) lk k = Some (depthOf lk k)"
  using assms by (auto simp: noCycles_def depthOf_def)

lemma depthOf_less: "noCycles lk \<Longrightarrow> k \<in> fst ` set lk \<Longrightarrow> depthOf lk k < length lk"
  using depthOf_climb climb_less by blast

lemma depthOf_child:
  assumes "distinct (map fst lk)" and "noCycles lk" and "(c, Some p) \<in> set lk"
  shows "depthOf lk c = Suc (depthOf lk p)"
proof -
  have c: "c \<in> fst ` set lk" using assms(3) by force
  have "parentOf lk c = Some p" using parentOf_entry[OF assms(1,3)] .
  from climb_parent[OF this depthOf_climb[OF assms(2) c]]
  obtain r' where "depthOf lk c = Suc r'" "climb (length lk) lk p = Some r'" by blast
  then show ?thesis by (simp add: depthOf_def)
qed

lemma depthOf_root:
  assumes "distinct (map fst lk)" and "(k, None) \<in> set lk"
  shows "depthOf lk k = 0"
proof -
  have "parentOf lk k = None" using parentOf_entry[OF assms] .
  moreover obtain n where "length lk = Suc n" using assms(2) by (cases lk) auto
  ultimately show ?thesis by (simp add: depthOf_def)
qed

subsection \<open>Subtrees\<close>

lemma subtree_unfold:
  "subtree lk k = insert k (\<Union>c \<in> {c. (c, Some k) \<in> set lk}. subtree lk c)"
proof (intro equalityI subsetI)
  fix x assume "x \<in> subtree lk k"
  then show "x \<in> insert k (\<Union>c \<in> {c. (c, Some k) \<in> set lk}. subtree lk c)"
  proof (induction rule: subtree.induct)
    case subtree_self
    then show ?case by simp
  next
    case (subtree_child p c)
    then show ?case
      by (auto intro: subtree.intros)
  qed
next
  fix x assume "x \<in> insert k (\<Union>c \<in> {c. (c, Some k) \<in> set lk}. subtree lk c)"
  then consider "x = k" | c where "(c, Some k) \<in> set lk" "x \<in> subtree lk c" by auto
  then show "x \<in> subtree lk k"
  proof cases
    case 1
    then show ?thesis by (simp add: subtree_self)
  next
    case 2
    from 2(2) show ?thesis
    proof (induction rule: subtree.induct)
      case subtree_self
      from subtree.subtree_child[OF subtree.subtree_self 2(1)] show ?case .
    next
      case (subtree_child p c')
      then show ?case by (auto intro: subtree.subtree_child)
    qed
  qed
qed

lemma subtree_keys: "x \<in> subtree lk k \<Longrightarrow> k \<in> fst ` set lk \<Longrightarrow> x \<in> fst ` set lk"
  by (induction rule: subtree.induct) force+

lemma subtree_parent:
  assumes "distinct (map fst lk)" and "x \<in> subtree lk k" and "(x, Some p) \<in> set lk" and "x \<noteq> k"
  shows "p \<in> subtree lk k"
  using assms(2,3,4)
proof (cases rule: subtree.cases)
  case subtree_self
  with assms(4) show ?thesis by simp
next
  case (subtree_child p')
  have "parentOf lk x = Some p" "parentOf lk x = Some p'"
    using parentOf_entry[OF assms(1)] assms(3) subtree_child(2) by blast+
  then have "p' = p" by simp
  with subtree_child(1) show ?thesis by simp
qed

subsection \<open>Relabelling\<close>

lemma links_relabel: "links (relabel S t m) = links m"
  by (simp add: links_def relabel_def)

lemma relabel_relabel: "relabel S t (relabel T t m) = relabel (T \<union> S) t m"
  by (simp add: relabel_def)

lemma relabel_empty: "relabel {} t m = m"
  by (simp add: relabel_def)

lemma setDisplayLevel_relabel: "t k = l \<Longrightarrow> setDisplayLevel k l m = relabel {k} t m"
  by (simp add: setDisplayLevel_def relabel_def)

lemma nodeMap_get_present:
  "k \<in> key ` set m \<Longrightarrow> \<exists>node. nodeMap_get k m = Some node"
  unfolding nodeMap_get_def by (induction m) auto

lemma links_keys: "fst ` set (links m) = key ` set m"
  by (force simp: links_def)

lemma links_mem: "(c, po) \<in> set (links m) \<longleftrightarrow> (\<exists>n \<in> set m. key n = c \<and> parent n = po)"
  by (auto simp: links_def)

lemma childTrees_Nil: "childTrees lk k [] = {}"
  by (simp add: childTrees_def)

lemma childTrees_Cons:
  "childTrees lk k (c # cs) =
     (if parent c = Some k then subtree lk (key c) \<union> childTrees lk k cs else childTrees lk k cs)"
  by (simp add: childTrees_def)

lemma childTrees_links:
  "childTrees (links m) k m = (\<Union>c \<in> {c. (c, Some k) \<in> set (links m)}. subtree (links m) c)"
proof -
  have "(\<lambda>c. subtree (links m) (key c)) ` {c \<in> set m. parent c = Some k} =
        subtree (links m) ` {c. (c, Some k) \<in> set (links m)}"
    by (force simp: links_mem)
  then show ?thesis by (simp add: childTrees_def)
qed

lemma assign_children_fold:
  assumes rec: "\<And>c m'. c \<in> set cs \<Longrightarrow> parent c = Some k \<Longrightarrow> links m' = lk \<Longrightarrow>
            assignDisplayLevelRecursive f (key c) l' m' = Some (relabel (subtree lk (key c)) t m')"
      and st: "links st = lk"
  shows "fold (\<lambda>child acc.
                  case acc of
                    None \<Rightarrow> None
                  | Some m \<Rightarrow>
                      if parent child = Some k
                      then assignDisplayLevelRecursive f (key child) l' m
                      else Some m)
           cs (Some st) =
         Some (relabel (childTrees lk k cs) t st)"
  using assms
proof (induction cs arbitrary: st)
  case Nil
  then show ?case by (simp add: relabel_empty childTrees_Nil)
next
  case (Cons c cs)
  have ih: "\<And>st'. links st' = lk \<Longrightarrow>
     fold (\<lambda>child acc. case acc of None \<Rightarrow> None
             | Some m \<Rightarrow> if parent child = Some k
                 then assignDisplayLevelRecursive f (key child) l' m else Some m)
          cs (Some st') =
     Some (relabel (childTrees lk k cs) t st')"
    using Cons.IH Cons.prems(1) by simp
  show ?case
  proof (cases "parent c = Some k")
    case True
    have step: "assignDisplayLevelRecursive f (key c) l' st = Some (relabel (subtree lk (key c)) t st)"
      using Cons.prems(1)[of c st] True Cons.prems(2) by simp
    have l: "links (relabel (subtree lk (key c)) t st) = lk"
      using Cons.prems(2) by (simp add: links_relabel)
    show ?thesis
      using True
      by (simp add: step ih[OF l] relabel_relabel childTrees_Cons
               del: assignDisplayLevelRecursive.simps)
  next
    case False
    show ?thesis
      using False
      by (simp add: ih[OF Cons.prems(2)] childTrees_Cons del: assignDisplayLevelRecursive.simps)
  qed
qed

lemma assign_subtree:
  assumes dist: "distinct (map fst lk)" and nc: "noCycles lk"
  shows "links m = lk \<Longrightarrow> k \<in> fst ` set lk \<Longrightarrow> length lk \<le> depthOf lk k + f \<Longrightarrow>
         assignDisplayLevelRecursive f k (base + int (depthOf lk k)) m =
           Some (relabel (subtree lk k) (\<lambda>x. base + int (depthOf lk x)) m)"
proof (induction f arbitrary: k m)
  case 0
  with depthOf_less[OF nc, of k] show ?case by simp
next
  case (Suc f)
  let ?t = "\<lambda>x. base + int (depthOf lk x)"
  let ?l = "base + int (depthOf lk k)"
  have "k \<in> key ` set m" using Suc.prems(1,2) links_keys[of m] by simp
  then obtain node where node: "nodeMap_get k m = Some node"
    using nodeMap_get_present by blast
  have rec: "assignDisplayLevelRecursive f (key c) (?l + 1) m' =
               Some (relabel (subtree lk (key c)) ?t m')"
    if c: "c \<in> set m" "parent c = Some k" and m': "links m' = lk" for c m'
  proof -
    have e: "(key c, Some k) \<in> set lk" using c Suc.prems(1) links_mem[of "key c" "Some k" m] by auto
    then have kc: "key c \<in> fst ` set lk" by force
    have d: "depthOf lk (key c) = Suc (depthOf lk k)" using depthOf_child[OF dist nc e] .
    have le: "length lk \<le> depthOf lk (key c) + f" using d Suc.prems(3) by simp
    have eq: "?l + 1 = base + int (depthOf lk (key c))" using d by simp
    show ?thesis unfolding eq using Suc.IH[OF m' kc le] .
  qed
  have l0: "links (setDisplayLevel k ?l m) = lk"
    using Suc.prems(1) by (simp add: setDisplayLevel_relabel[of ?t] links_relabel)
  have unf: "assignDisplayLevelRecursive (Suc f) k ?l m =
          fold (\<lambda>child acc. case acc of None \<Rightarrow> None
                  | Some m \<Rightarrow> if parent child = Some k
                      then assignDisplayLevelRecursive f (key child) (?l + 1) m else Some m)
               m (Some (setDisplayLevel k ?l m))"
    by (simp only: assignDisplayLevelRecursive.simps node option.case)
  have "assignDisplayLevelRecursive (Suc f) k ?l m =
          Some (relabel (childTrees lk k m) ?t (setDisplayLevel k ?l m))"
    unfolding unf using assign_children_fold[of m k lk f "?l + 1" ?t, OF rec l0] .
  also have "relabel (childTrees lk k m) ?t (setDisplayLevel k ?l m) =
             relabel ({k} \<union> childTrees lk k m) ?t m"
    by (simp only: setDisplayLevel_relabel[of ?t k ?l] relabel_relabel)
  also have "{k} \<union> childTrees lk k m = subtree lk k"
    using childTrees_links[of m k] Suc.prems(1) subtree_unfold[of lk k] by simp
  finally show ?case .
qed


section \<open>The depth assigner\<close>

lemma nodeMap_set_fresh: "key v \<notin> key ` set m \<Longrightarrow> nodeMap_set v m = m @ [v]"
  by (induction m) auto

lemma nodeMap_build:
  "distinct (map key ns) \<Longrightarrow> key ` set m \<inter> key ` set ns = {} \<Longrightarrow>
   fold (\<lambda>node m. nodeMap_set (withDisplayLevel node 0) m) ns m =
     m @ map (\<lambda>n. withDisplayLevel n 0) ns"
proof (induction ns arbitrary: m)
  case Nil
  then show ?case by simp
next
  case (Cons n ns)
  have fresh: "key (withDisplayLevel n 0) \<notin> key ` set m"
    using Cons.prems(2) by (auto simp: withDisplayLevel_def)
  have d: "distinct (map key ns)" using Cons.prems(1) by simp
  have i: "key ` set (m @ [withDisplayLevel n 0]) \<inter> key ` set ns = {}"
    using Cons.prems by (auto simp: withDisplayLevel_def)
  show ?case
    by (simp add: nodeMap_set_fresh[OF fresh] Cons.IH[OF d i])
qed

lemma find_first:
  "filter P xs \<noteq> [] \<Longrightarrow> \<exists>x. find P xs = Some x \<and> x \<in> set xs \<and> P x"
  by (induction xs) auto

lemma find_agree: "\<forall>x \<in> set xs. P x = Q x \<Longrightarrow> find P xs = find Q xs"
  by (induction xs) auto

lemma links_initial: "links (map (\<lambda>n. withDisplayLevel n 0) nodes) = links nodes"
  by (simp add: links_def withDisplayLevel_def)

lemma relabel_initial_fields:
  "map (\<lambda>n. (key n, name n, parent n)) (relabel S t (map (\<lambda>n. withDisplayLevel n 0) nodes)) =
   map (\<lambda>n. (key n, name n, parent n)) nodes"
  by (simp add: relabel_def withDisplayLevel_def)

lemma relabel_initial_mem:
  "n \<in> set (relabel S t (map (\<lambda>x. withDisplayLevel x 0) nodes)) \<longleftrightarrow>
   (\<exists>n0 \<in> set nodes. n = \<lparr>key = key n0, name = name n0, parent = parent n0,
                           displayLevel = (if key n0 \<in> S then t (key n0) else 0)\<rparr>)"
  by (auto simp: relabel_def withDisplayLevel_def image_iff)

text \<open>
  Claim C2, as amended. For a node list with unique keys, exactly one node without parent
  and no cycles, in which no node names \<open>0\<close> as its parent, the depth assignment returns
  (with fuel at least the length of the list): the same nodes in the same order, each with a
  display level; the root has level 0; every node reachable from the root that has a parent
  has the level of its parent plus 1; every node not reachable from the root has level 0.
\<close>

theorem depth_assignment:
  assumes inv: "treeInvariants nodes"
      and nz: "Some 0 \<notin> parent ` set nodes"
      and fuel: "length nodes \<le> fuel"
  shows "\<exists>res root.
           assignDisplayLevels fuel nodes = Some res \<and>
           map (\<lambda>n. (key n, name n, parent n)) res = map (\<lambda>n. (key n, name n, parent n)) nodes \<and>
           root \<in> set res \<and> parent root = None \<and> displayLevel root = 0 \<and>
           (\<forall>n \<in> set res. \<forall>p. key n \<in> subtree (links nodes) (key root) \<and> parent n = Some p \<longrightarrow>
              (\<exists>pn \<in> set res. key pn = p \<and> displayLevel n = displayLevel pn + 1)) \<and>
           (\<forall>n \<in> set res. key n \<notin> subtree (links nodes) (key root) \<longrightarrow> displayLevel n = 0)"
proof -
  define lk where "lk = links nodes"
  define m0 where "m0 = map (\<lambda>n. withDisplayLevel n 0) nodes"
  define t where "t = (\<lambda>x. int (depthOf lk x))"
  have dk: "distinct (map key nodes)" and ur: "uniqueRoot nodes" and nc: "noCycles lk"
    using inv by (simp_all add: treeInvariants_def uniqueKeys_def lk_def)
  have dist: "distinct (map fst lk)"
    using dk by (simp add: lk_def links_def comp_def)
  have lm0: "links m0 = lk" by (simp add: m0_def lk_def links_initial)
  have build: "fold (\<lambda>node m. nodeMap_set (withDisplayLevel node 0) m) nodes [] = m0"
    using nodeMap_build[OF dk, of "[]"] by (simp add: m0_def)
  have "filter (\<lambda>n. parent n = None) nodes \<noteq> []"
    using ur by (auto simp: uniqueRoot_def)
  from find_first[OF this] obtain r0 where
    r0: "find (\<lambda>n. parent n = None) nodes = Some r0" "r0 \<in> set nodes" "parent r0 = None"
    by blast
  have "\<forall>n \<in> set nodes. (\<not> truthyNum (parent n)) = (parent n = None)"
    using nz by (force simp: truthyNum_def split: option.splits)
  from find_agree[OF this] r0(1)
  have froot: "find (\<lambda>n. \<not> truthyNum (parent n)) nodes = Some r0" by simp
  have er: "(key r0, None) \<in> set lk"
    using r0(2,3) by (auto simp: lk_def links_mem)
  then have kr: "key r0 \<in> fst ` set lk" by force
  have d0: "depthOf lk (key r0) = 0" using depthOf_root[OF dist er] .
  have len: "length lk \<le> depthOf lk (key r0) + fuel"
    using fuel by (simp add: lk_def links_def)
  define S where "S = subtree lk (key r0)"
  define res where "res = relabel S t m0"
  have run: "assignDisplayLevelRecursive fuel (key r0) 0 m0 = Some res"
    using assign_subtree[OF dist nc lm0 kr len, of 0] d0 by (simp add: res_def S_def t_def)
  have ares: "assignDisplayLevels fuel nodes = Some res"
    by (simp add: assignDisplayLevels_def build froot run)
  have mem: "n \<in> set res \<longleftrightarrow>
      (\<exists>n0 \<in> set nodes. n = \<lparr>key = key n0, name = name n0, parent = parent n0,
                              displayLevel = (if key n0 \<in> S then t (key n0) else 0)\<rparr>)" for n
    unfolding res_def m0_def by (rule relabel_initial_mem)
  define root where "root = \<lparr>key = key r0, name = name r0, parent = parent r0,
                              displayLevel = (if key r0 \<in> S then t (key r0) else 0)\<rparr>"
  have rootin: "root \<in> set res" using r0(2) mem root_def by blast
  have rootp: "parent root = None" "key root = key r0" "displayLevel root = 0"
    using r0(3) d0 by (simp_all add: root_def t_def)
  have fields: "map (\<lambda>n. (key n, name n, parent n)) res = map (\<lambda>n. (key n, name n, parent n)) nodes"
    unfolding res_def m0_def by (rule relabel_initial_fields)
  have inside: "\<exists>pn \<in> set res. key pn = p \<and> displayLevel n = displayLevel pn + 1"
    if n: "n \<in> set res" "key n \<in> S" "parent n = Some p" for n p
  proof -
    from n(1) mem obtain n0 where n0: "n0 \<in> set nodes"
      "n = \<lparr>key = key n0, name = name n0, parent = parent n0,
            displayLevel = (if key n0 \<in> S then t (key n0) else 0)\<rparr>" by blast
    have kS: "key n0 \<in> S" and pp: "parent n0 = Some p" using n(2,3) n0(2) by simp_all
    have e: "(key n0, Some p) \<in> set lk" using n0(1) pp by (auto simp: lk_def links_mem)
    have ne: "key n0 \<noteq> key r0"
    proof
      assume "key n0 = key r0"
      with parentOf_entry[OF dist e] parentOf_entry[OF dist er] show False by simp
    qed
    have pS: "p \<in> S" using subtree_parent[OF dist _ e ne] kS by (simp add: S_def)
    then have "p \<in> fst ` set lk" using subtree_keys[of p lk "key r0"] kr by (simp add: S_def)
    then obtain p0 where p0: "p0 \<in> set nodes" "key p0 = p"
      using links_keys[of nodes] by (auto simp: lk_def)
    define pn where "pn = \<lparr>key = key p0, name = name p0, parent = parent p0,
                            displayLevel = (if key p0 \<in> S then t (key p0) else 0)\<rparr>"
    have "pn \<in> set res" using p0(1) mem pn_def by blast
    moreover have "key pn = p" by (simp add: pn_def p0(2))
    moreover have "displayLevel n = displayLevel pn + 1"
      using depthOf_child[OF dist nc e] kS pS by (simp add: n0(2) pn_def p0(2) t_def)
    ultimately show ?thesis by blast
  qed
  have outside: "displayLevel n = 0" if n: "n \<in> set res" "key n \<notin> S" for n
  proof -
    from n(1) mem obtain n0 where n0: "n0 \<in> set nodes"
      "n = \<lparr>key = key n0, name = name n0, parent = parent n0,
            displayLevel = (if key n0 \<in> S then t (key n0) else 0)\<rparr>" by blast
    with n(2) show ?thesis by auto
  qed
  have S': "subtree (links nodes) (key root) = S" by (simp add: S_def lk_def rootp(2))
  show ?thesis
    apply (rule exI[of _ res], rule exI[of _ root])
    unfolding S'
    using ares fields rootin rootp(1,3) inside outside by blast
qed

lemma exampleNodes_tree: "treeInvariants exampleNodes"
  by (simp add: treeInvariants_def uniqueKeys_def uniqueRoot_def noCycles_def links_def
        parentOf_def exampleNodes_def)

lemma zeroKeyNodes_tree: "treeInvariants zeroKeyNodes"
  by (simp add: treeInvariants_def uniqueKeys_def uniqueRoot_def noCycles_def links_def
        parentOf_def zeroKeyNodes_def)

theorem depth_assignment_witness:
  "treeInvariants exampleNodes \<and> Some 0 \<notin> parent ` set exampleNodes \<and>
   length exampleNodes \<le> 5 \<and>
   (\<exists>res root. assignDisplayLevels 5 exampleNodes = Some res \<and>
      map (\<lambda>n. (key n, name n, parent n)) res = map (\<lambda>n. (key n, name n, parent n)) exampleNodes \<and>
      root \<in> set res \<and> parent root = None \<and> displayLevel root = 0)"
proof -
  have a: "Some 0 \<notin> parent ` set exampleNodes" by (simp add: exampleNodes_def)
  have b: "length exampleNodes \<le> 5" by (simp add: exampleNodes_def)
  from depth_assignment[OF exampleNodes_tree a b] exampleNodes_tree a b
  show ?thesis by blast
qed

lemma exampleNodes_levels:
  "assignDisplayLevels 5 exampleNodes =
     Some [\<lparr>key = 1, name = ''Worker slipped'', parent = None, displayLevel = 0\<rparr>,
           \<lparr>key = 2, name = ''Human Factor'', parent = Some 1, displayLevel = 1\<rparr>,
           \<lparr>key = 3, name = ''Equipment Issue'', parent = Some 1, displayLevel = 1\<rparr>,
           \<lparr>key = 4, name = ''Inadequate Training'', parent = Some 2, displayLevel = 2\<rparr>,
           \<lparr>key = 9, name = ''Detached'', parent = Some 7, displayLevel = 0\<rparr>]"
  by (simp add: assignDisplayLevels_def exampleNodes_def withDisplayLevel_def truthyNum_def
        nodeMap_get_def setDisplayLevel_def eval_nat_numeral)

text \<open>
  Claim C2 as stated fails when a parent reference is \<open>0\<close>: the list below has unique keys,
  one parentless root (key 0) and no cycle, node 1 is a child of the root, and the run gives
  node 1 the level 0 of the root instead of 1, because \<^verbatim>\<open>!node.parent\<close> takes node 1 for the
  root.
\<close>

theorem depth_assignment_zero_key_counterexample:
  "treeInvariants zeroKeyNodes \<and>
   1 \<in> subtree (links zeroKeyNodes) 0 \<and>
   assignDisplayLevels 3 zeroKeyNodes =
     Some [\<lparr>key = 1, name = ''Human Factor'', parent = Some 0, displayLevel = 0\<rparr>,
           \<lparr>key = 0, name = ''Worker slipped'', parent = None, displayLevel = 0\<rparr>,
           \<lparr>key = 2, name = ''Inadequate Training'', parent = Some 1, displayLevel = 1\<rparr>]"
proof -
  have "(1, Some 0) \<in> set (links zeroKeyNodes)" by (simp add: links_def zeroKeyNodes_def)
  from subtree_child[OF subtree_self this] have r: "1 \<in> subtree (links zeroKeyNodes) 0" .
  have "assignDisplayLevels 3 zeroKeyNodes =
     Some [\<lparr>key = 1, name = ''Human Factor'', parent = Some 0, displayLevel = 0\<rparr>,
           \<lparr>key = 0, name = ''Worker slipped'', parent = None, displayLevel = 0\<rparr>,
           \<lparr>key = 2, name = ''Inadequate Training'', parent = Some 1, displayLevel = 1\<rparr>]"
    by (simp add: assignDisplayLevels_def zeroKeyNodes_def withDisplayLevel_def truthyNum_def
          nodeMap_get_def setDisplayLevel_def eval_nat_numeral)
  with zeroKeyNodes_tree r show ?thesis by blast
qed


section \<open>Cascade delete\<close>

lemma getNodeAndChildren_fold:
  assumes "\<And>c. c \<in> set cs \<Longrightarrow>
             \<exists>ks. getNodeAndChildren f (key c) ns = Some ks \<and> set ks = subtree lk (key c)"
  shows "\<exists>res. fold (\<lambda>child acc.
             case acc of
               None \<Rightarrow> None
             | Some result \<Rightarrow>
                 (case getNodeAndChildren f (key child) ns of
                    None \<Rightarrow> None
                  | Some sub \<Rightarrow> Some (result @ sub)))
           cs (Some acc) = Some res \<and>
         set res = set acc \<union> (\<Union>c \<in> set cs. subtree lk (key c))"
  using assms
proof (induction cs arbitrary: acc)
  case Nil
  then show ?case by simp
next
  case (Cons c cs)
  from Cons.prems[of c] obtain ks where
    ks: "getNodeAndChildren f (key c) ns = Some ks" "set ks = subtree lk (key c)" by auto
  have "\<And>c'. c' \<in> set cs \<Longrightarrow>
          \<exists>ks. getNodeAndChildren f (key c') ns = Some ks \<and> set ks = subtree lk (key c')"
    using Cons.prems by simp
  from Cons.IH[OF this, of "acc @ ks"] obtain res where
    res: "fold (\<lambda>child acc.
             case acc of
               None \<Rightarrow> None
             | Some result \<Rightarrow>
                 (case getNodeAndChildren f (key child) ns of
                    None \<Rightarrow> None
                  | Some sub \<Rightarrow> Some (result @ sub)))
           cs (Some (acc @ ks)) = Some res"
      "set res = set (acc @ ks) \<union> (\<Union>c \<in> set cs. subtree lk (key c))" by blast
  show ?case
    using res ks by (auto simp del: getNodeAndChildren.simps)
qed

lemma getNodeAndChildren_subtree:
  assumes dist: "distinct (map fst lk)" and nc: "noCycles lk" and ln: "links ns = lk"
  shows "k \<in> fst ` set lk \<Longrightarrow> length lk \<le> depthOf lk k + f \<Longrightarrow>
         \<exists>ks. getNodeAndChildren f k ns = Some ks \<and> set ks = subtree lk k"
proof (induction f arbitrary: k)
  case 0
  with depthOf_less[OF nc, of k] show ?case by simp
next
  case (Suc f)
  let ?cs = "filter (\<lambda>node. parent node = Some k) ns"
  have rec: "\<exists>ks. getNodeAndChildren f (key c) ns = Some ks \<and> set ks = subtree lk (key c)"
    if "c \<in> set ?cs" for c
  proof -
    have e: "(key c, Some k) \<in> set lk" using that ln links_mem[of "key c" "Some k" ns] by auto
    then have kc: "key c \<in> fst ` set lk" by force
    have "depthOf lk (key c) = Suc (depthOf lk k)" using depthOf_child[OF dist nc e] .
    then have "length lk \<le> depthOf lk (key c) + f" using Suc.prems(2) by simp
    from Suc.IH[OF kc this] show ?thesis .
  qed
  from getNodeAndChildren_fold[of ?cs f ns lk "[k]", OF rec] obtain res where
    res: "fold (\<lambda>child acc.
             case acc of
               None \<Rightarrow> None
             | Some result \<Rightarrow>
                 (case getNodeAndChildren f (key child) ns of
                    None \<Rightarrow> None
                  | Some sub \<Rightarrow> Some (result @ sub)))
           ?cs (Some [k]) = Some res"
      "set res = set [k] \<union> (\<Union>c \<in> set ?cs. subtree lk (key c))" by blast
  have "(\<Union>c \<in> set ?cs. subtree lk (key c)) = childTrees lk k ns"
    by (simp add: childTrees_def)
  also have "\<dots> = (\<Union>c \<in> {c. (c, Some k) \<in> set lk}. subtree lk c)"
    using childTrees_links[of ns k] ln by simp
  finally have "set res = subtree lk k"
    using res(2) subtree_unfold[of lk k] by simp
  moreover have "getNodeAndChildren (Suc f) k ns = Some res"
    using res(1) by (simp only: getNodeAndChildren.simps)
  ultimately show ?case by blast
qed

text \<open>
  Claim C3. On a node list forming a tree and a key \<open>k\<close> present in it, \<^verbatim>\<open>removeNode\<close>
  returns (with fuel at least the length of the list) and leaves exactly the nodes outside
  the subtree of \<open>k\<close>, unchanged and in their order; the size drops by the size of the
  subtree, \<open>k\<close> itself is gone, and edit mode is cleared when \<open>k\<close> was the node being edited
  and kept otherwise.
\<close>

theorem removeNode_cascade:
  assumes inv: "treeInvariants (diagramData st)"
      and present: "nodeKey \<in> key ` set (diagramData st)"
      and fuel: "length (diagramData st) \<le> fuel"
  shows "\<exists>st'. removeNode fuel nodeKey st = Some st' \<and>
           diagramData st' =
             filter (\<lambda>n. key n \<notin> subtree (links (diagramData st)) nodeKey) (diagramData st) \<and>
           length (diagramData st') =
             length (diagramData st) -
             length (filter (\<lambda>n. key n \<in> subtree (links (diagramData st)) nodeKey) (diagramData st)) \<and>
           nodeKey \<notin> key ` set (diagramData st') \<and>
           editingNodeId st' = (if editingNodeId st = Some nodeKey then None else editingNodeId st)"
proof -
  define ns where "ns = diagramData st"
  define lk where "lk = links ns"
  have dk: "distinct (map key ns)" and nc: "noCycles lk"
    using inv by (simp_all add: treeInvariants_def uniqueKeys_def lk_def ns_def)
  have dist: "distinct (map fst lk)"
    using dk by (simp add: lk_def links_def comp_def)
  have k: "nodeKey \<in> fst ` set lk" using present links_keys[of ns] by (simp add: lk_def ns_def)
  have len: "length lk \<le> depthOf lk nodeKey + fuel"
    using fuel by (simp add: lk_def links_def ns_def)
  from getNodeAndChildren_subtree[OF dist nc _ k len, of ns] obtain ks where
    ks: "getNodeAndChildren fuel nodeKey ns = Some ks" "set ks = subtree lk nodeKey"
    by (auto simp: lk_def)
  define st1 where "st1 = st\<lparr>diagramData := filter (\<lambda>node. key node \<notin> subtree lk nodeKey) ns\<rparr>"
  define st' where "st' = (if editingNodeId st1 = Some nodeKey then st1\<lparr>editingNodeId := None\<rparr> else st1)"
  have run: "removeNode fuel nodeKey st = Some st'"
    using ks by (simp add: removeNode_def ns_def[symmetric] st'_def st1_def Let_def)
  have d: "diagramData st' = filter (\<lambda>n. key n \<notin> subtree lk nodeKey) ns"
    by (simp add: st'_def st1_def)
  have "length (filter (\<lambda>n. key n \<in> subtree lk nodeKey) ns) +
        length (filter (\<lambda>n. key n \<notin> subtree lk nodeKey) ns) = length ns"
    using sum_length_filter_compl[of "\<lambda>n. key n \<in> subtree lk nodeKey" ns] by simp
  then have l: "length (diagramData st') =
      length ns - length (filter (\<lambda>n. key n \<in> subtree lk nodeKey) ns)"
    using d by simp
  have g: "nodeKey \<notin> key ` set (diagramData st')"
    using d by (auto simp: subtree_self)
  have e: "editingNodeId st' = (if editingNodeId st = Some nodeKey then None else editingNodeId st)"
    by (simp add: st'_def st1_def)
  show ?thesis
    using run d l g e unfolding lk_def ns_def by blast
qed

theorem removeNode_cascade_witness:
  "treeInvariants (diagramData exampleEditor) \<and> 2 \<in> key ` set (diagramData exampleEditor) \<and>
   length (diagramData exampleEditor) \<le> 4 \<and>
   (\<exists>st'. removeNode 4 2 exampleEditor = Some st' \<and>
      2 \<notin> key ` set (diagramData st') \<and> editingNodeId st' = None)"
proof -
  have a: "treeInvariants (diagramData exampleEditor)"
    by (simp add: treeInvariants_def uniqueKeys_def uniqueRoot_def noCycles_def links_def
          parentOf_def exampleEditor_def)
  have b: "2 \<in> key ` set (diagramData exampleEditor)" by (simp add: exampleEditor_def)
  have c: "length (diagramData exampleEditor) \<le> 4" by (simp add: exampleEditor_def)
  have d: "editingNodeId exampleEditor = Some 2" by (simp add: exampleEditor_def)
  from removeNode_cascade[OF a b c] obtain st' where
    "removeNode 4 2 exampleEditor = Some st'" "2 \<notin> key ` set (diagramData st')"
    "editingNodeId st' = (if editingNodeId exampleEditor = Some 2 then None else editingNodeId exampleEditor)"
    by blast
  with a b c d show ?thesis by simp
qed

lemma removeNode_example:
  "removeNode 4 2 exampleEditor =
     Some (exampleEditor\<lparr>diagramData := [\<lparr>key = 1, name = ''Worker slipped'', parent = None\<rparr>,
                                         \<lparr>key = 3, name = ''Equipment Issue'', parent = Some 1\<rparr>],
                         editingNodeId := None\<rparr>)"
  by (simp add: removeNode_def exampleEditor_def eval_nat_numeral)

end
